theory Spec2Isabelle
  imports Main "HOL-Library.Word"
begin

section \<open>gpage: one contiguous allocation page (src/gpage.h)\<close>

text \<open>
  A shallow embedding of class \<open>gcpp::gpage\<close>. Addresses are natural numbers, a
  pointer is \<open>None\<close> (the null pointer) or \<open>Some a\<close> (the address \<open>a\<close>). Values of type
  \<open>std::size_t\<close> are natural numbers below \<open>size_mod = 2 ^ 64\<close>; every \<open>size_t\<close> operation of the
  source that can leave that range is written with its wrap-around (\<open>size_add\<close>,
  \<open>size_sub\<close>, \<open>size_mul\<close>). A counter that is incremented by one while it is below a
  \<open>size_t\<close> bound cannot wrap and is a plain \<open>+ 1\<close>.

  What is undefined behaviour or an abort in C++ is an error value: an index outside a
  \<open>std::vector\<close>, a failed \<open>assert\<close>, a division by zero, a call of \<open>std::align\<close> with
  an alignment that is not a power of two.
\<close>

subsection \<open>std::size_t arithmetic\<close>

definition size_mod :: nat where
  "size_mod = 2 ^ 64"

definition size_add :: "nat \<Rightarrow> nat \<Rightarrow> nat" where
  "size_add a b = (a + b) mod size_mod"

definition size_sub :: "nat \<Rightarrow> nat \<Rightarrow> nat" where
  "size_sub a b = (a + (size_mod - b mod size_mod)) mod size_mod"

definition size_mul :: "nat \<Rightarrow> nat \<Rightarrow> nat" where
  "size_mul a b = (a * b) mod size_mod"

subsection \<open>Data\<close>

type_synonym byte = "8 word"

type_synonym pointer = "nat option"

datatype error = DivisionByZero | AssertionFailed | OutOfBounds | UndefinedBehaviour

text \<open>
  The members of \<open>gpage\<close>. \<open>storage\<close> is the address of \<open>storage[0]\<close>, the array that
  \<open>new byte[total_size]\<close> returned, and \<open>storage_bytes\<close> its contents.
\<close>

record gpage =
  total_size :: nat
  min_alloc :: nat
  storage :: nat
  storage_bytes :: "byte list"
  inuse :: "bool list"
  starts :: "bool list"
  current_known_request_bound :: nat

datatype gpage_find_result =
  not_in_range | in_range_unallocated | in_range_allocated_middle | in_range_allocated_start

record contains_ret =
  found :: gpage_find_result
  location :: nat
  start_location :: nat

record location_info_ret =
  is_start :: bool
  pointer :: nat

text \<open>\<open>gpage::locations()\<close>, the number of locations of the page.\<close>

definition locations :: "gpage \<Rightarrow> nat" where
  "locations g = total_size g div min_alloc g"

subsection \<open>Construction\<close>

text \<open>
  \<open>gpage::gpage(total_size_, min_alloc_)\<close>, with primes for the trailing underscores
  of the parameter names. The arguments \<open>base\<close> and \<open>raw\<close> stand for what
  \<open>new byte[total_size]\<close> yields: the address of the array and the indeterminate byte
  at each offset (a failing \<open>new\<close> is not modelled). Both bitmaps are built with
  \<open>total_size\<close> entries, as lines 117 and 118 of the source do.
\<close>

definition new_bytes :: "(nat \<Rightarrow> byte) \<Rightarrow> nat \<Rightarrow> byte list" where
  "new_bytes raw n = map raw [0..<n]"

definition gpage_new :: "nat \<Rightarrow> (nat \<Rightarrow> byte) \<Rightarrow> nat \<Rightarrow> nat \<Rightarrow> error + gpage" where
  "gpage_new base raw total_size' min_alloc' =
     (if min_alloc' = 0 then Inl DivisionByZero
      else
        let ts = size_add total_size'
                   (if total_size' mod min_alloc' > 0
                    then size_sub min_alloc' (total_size' mod min_alloc')
                    else 0)
        in if ts mod min_alloc' \<noteq> 0 then Inl AssertionFailed
           else Inr \<lparr> total_size = ts, min_alloc = min_alloc', storage = base,
                      storage_bytes = new_bytes raw ts,
                      inuse = replicate ts False, starts = replicate ts False,
                      current_known_request_bound = ts \<rparr>)"

subsection \<open>Allocation\<close>

text \<open>
  \<open>std::align(alignment, size, ptr, space)\<close> of the C++ standard library: the first
  address at or after \<open>ptr\<close> that is a multiple of \<open>alignment\<close>, if \<open>size\<close> bytes fit
  from there into the \<open>space\<close> bytes that start at \<open>ptr\<close>, and the null pointer
  otherwise. The standard requires a power of two as alignment.
\<close>

definition is_pow2 :: "nat \<Rightarrow> bool" where
  "is_pow2 n = (\<exists>k \<in> {..<64}. n = 2 ^ k)"

definition std_align :: "nat \<Rightarrow> nat \<Rightarrow> nat \<Rightarrow> nat \<Rightarrow> error + pointer" where
  "std_align alignment sz ptr space =
     (if \<not> is_pow2 alignment then Inl UndefinedBehaviour
      else
        let aligned = ((ptr + alignment - 1) div alignment) * alignment;
            diff = aligned - ptr
        in if sz > space \<or> diff > space - sz then Inr None else Inr (Some aligned))"

text \<open>
  The inner loop of \<open>allocate\<close> (lines 161 to 168): probe \<open>inuse[i + j]\<close> for
  \<open>j < locations_needed\<close> and stop at the first location in use. The result is the
  value of \<open>j\<close> on leaving the loop, together with the list of the indices read.
\<close>

function probe :: "bool list \<Rightarrow> nat \<Rightarrow> nat \<Rightarrow> nat \<Rightarrow> nat list \<Rightarrow> error + nat \<times> nat list" where
  "probe iu i needed j tr =
     (if j < needed then
        (if size_add i j < length iu then
           (if iu ! (size_add i j) then Inr (j, tr @ [size_add i j])
            else probe iu i needed (j + 1) (tr @ [size_add i j]))
         else Inl OutOfBounds)
      else Inr (j, tr))"
  by pat_completeness auto
termination
  by (relation "measure (\<lambda>(iu, i, n, j, tr). n - j)") auto

text \<open>
  The outer loop (lines 157 to 173). On a location in use at offset \<open>j\<close> the source
  adds \<open>j\<close> to \<open>i\<close>, leaves the inner loop and then adds \<open>locations_step\<close> (here
  \<open>step\<close>; \<open>needed\<close> is \<open>locations_needed\<close> and \<open>end_at\<close> is \<open>end\<close>). The result
  is the value of \<open>i\<close> on leaving the loop and the indices read. \<open>None\<close> is a loop that
  does not end.
\<close>

partial_function (option) scan ::
  "bool list \<Rightarrow> nat \<Rightarrow> nat \<Rightarrow> nat \<Rightarrow> nat \<Rightarrow> nat list \<Rightarrow> (error + nat \<times> nat list) option" where
  "scan iu step needed end_at i tr =
     (if i < end_at then
        (case probe iu i needed 0 tr of
           Inl e \<Rightarrow> Some (Inl e)
         | Inr (j, tr') \<Rightarrow>
             if j = needed then Some (Inr (i, tr'))
             else scan iu step needed end_at (size_add (size_add i j) step) tr')
      else Some (Inr (i, tr)))"

declare scan.simps [code]

text \<open>\<open>std::fill(first, last, v)\<close> on a vector, by index (\<open>lst\<close> is the source's \<open>last\<close>).\<close>

function fill :: "'a list \<Rightarrow> nat \<Rightarrow> nat \<Rightarrow> 'a \<Rightarrow> 'a list" where
  "fill xs first lst v = (if first < lst then fill (xs[first := v]) (first + 1) lst v else xs)"
  by pat_completeness auto
termination
  by (relation "measure (\<lambda>(xs, first, lst, v). lst - first)") auto

text \<open>
  The local constants of \<open>allocate\<close>: \<open>bytes_needed\<close> (line 130),
  \<open>locations_step\<close> (line 146), \<open>locations_needed\<close> (line 150) and \<open>end\<close>
  (line 152).
\<close>

definition bytes_needed :: "nat \<Rightarrow> nat \<Rightarrow> nat" where
  "bytes_needed size_T num = size_mul size_T num"

definition locations_step :: "gpage \<Rightarrow> nat \<Rightarrow> nat" where
  "locations_step g align_T = size_add 1 (size_sub align_T 1 div min_alloc g)"

definition locations_needed :: "gpage \<Rightarrow> nat \<Rightarrow> nat \<Rightarrow> nat" where
  "locations_needed g size_T num =
     size_add (size_add 1 (size_sub (bytes_needed size_T num) 1 div min_alloc g))
              (if num > 1 then 1 else 0)"

definition end_loc :: "gpage \<Rightarrow> nat \<Rightarrow> nat \<Rightarrow> nat" where
  "end_loc g size_T num = size_add (size_sub (locations g) (locations_needed g size_T num)) 1"

text \<open>
  \<open>gpage::allocate<T>(num)\<close> with \<open>sizeof(T) = size_T\<close> and \<open>alignof(T) = align_T\<close>.
  The result is the returned pointer, the page afterwards and the bitmap indices that
  the call read, in order.
\<close>

definition allocate_traced ::
  "gpage \<Rightarrow> nat \<Rightarrow> nat \<Rightarrow> nat \<Rightarrow> (error + pointer \<times> gpage \<times> nat list) option" where
  "allocate_traced g size_T align_T num =
     (if bytes_needed size_T num > current_known_request_bound g then Some (Inr (None, g, []))
      else
        case std_align align_T (bytes_needed size_T num) (storage g) (total_size g) of
          Inl e \<Rightarrow> Some (Inl e)
        | Inr None \<Rightarrow> Some (Inr (None, g, []))
        | Inr (Some aligned_start) \<Rightarrow>
            if min_alloc g = 0 then Some (Inl DivisionByZero)
            else if (aligned_start - storage g) div min_alloc g \<noteq> 0
              then Some (Inl AssertionFailed)
            else
              (case scan (inuse g) (locations_step g align_T) (locations_needed g size_T num)
                      (end_loc g size_T num) ((aligned_start - storage g) div min_alloc g) [] of
                 None \<Rightarrow> None
               | Some (Inl e) \<Rightarrow> Some (Inl e)
               | Some (Inr (i, tr)) \<Rightarrow>
                   if i \<ge> end_loc g size_T num then
                     Some (Inr (None,
                       g\<lparr>current_known_request_bound :=
                           min (current_known_request_bound g)
                               (size_sub (bytes_needed size_T num) 1)\<rparr>,
                       tr))
                   else if \<not> i < length (starts g) then Some (Inl OutOfBounds)
                   else if \<not> i + locations_needed g size_T num \<le> length (inuse g)
                     then Some (Inl OutOfBounds)
                   else
                     Some (Inr (Some (storage g + size_mul i (min_alloc g)),
                       g\<lparr>starts := (starts g)[i := True],
                          inuse := fill (inuse g) i (i + locations_needed g size_T num) True,
                          current_known_request_bound :=
                            size_sub (current_known_request_bound g)
                              (size_mul (min_alloc g) (locations_needed g size_T num))\<rparr>,
                       tr))))"

text \<open>\<open>allocate\<close> is \<open>allocate_traced\<close> without the list of indices.\<close>

definition allocate :: "gpage \<Rightarrow> nat \<Rightarrow> nat \<Rightarrow> nat \<Rightarrow> (error + pointer \<times> gpage) option" where
  "allocate g size_T align_T num =
     map_option (map_sum id (\<lambda>(p, g', tr). (p, g'))) (allocate_traced g size_T align_T num)"

subsection \<open>Reverse lookup\<close>

text \<open>The backward loop of \<open>contains\<close> (lines 212 to 214).\<close>

fun find_start :: "bool list \<Rightarrow> nat \<Rightarrow> error + nat" where
  "find_start st 0 = Inr 0"
| "find_start st (Suc n) =
     (if n < length st then (if \<not> st ! n then find_start st n else Inr (Suc n))
      else Inl OutOfBounds)"

text \<open>
  \<open>gpage::contains(p)\<close>. The upper end of the range test is \<open>&storage[total_size - 1]\<close>,
  the address of the last byte of the storage (line 200).
\<close>

definition address_of :: "pointer \<Rightarrow> nat" where
  "address_of p = (case p of None \<Rightarrow> 0 | Some a \<Rightarrow> a)"

definition contains :: "gpage \<Rightarrow> pointer \<Rightarrow> error + contains_ret" where
  "contains g p =
     (let pp = address_of p in
      if \<not> (storage g \<le> pp \<and> pp < storage g + total_size g - 1) then
        Inr \<lparr>found = not_in_range, location = 0, start_location = 0\<rparr>
      else if min_alloc g = 0 then Inl DivisionByZero
      else
        let whr = (pp - storage g) div min_alloc g in
        if \<not> whr < length (inuse g) then Inl OutOfBounds
        else if \<not> inuse g ! whr then
          Inr \<lparr>found = in_range_unallocated, location = whr, start_location = 0\<rparr>
        else if \<not> whr < length (starts g) then Inl OutOfBounds
        else if \<not> starts g ! whr then
          (case find_start (starts g) whr of
             Inl e \<Rightarrow> Inl e
           | Inr start \<Rightarrow>
               if \<not> start > 0 then Inl AssertionFailed
               else Inr \<lparr>found = in_range_allocated_middle, location = whr,
                         start_location = start - 1\<rparr>)
        else Inr \<lparr>found = in_range_allocated_start, location = whr, start_location = whr\<rparr>)"

text \<open>\<open>gpage::location_info(where)\<close>.\<close>

definition location_info :: "gpage \<Rightarrow> nat \<Rightarrow> error + location_info_ret" where
  "location_info g whr =
     (if \<not> whr < length (starts g) then Inl OutOfBounds
      else Inr \<lparr>is_start = starts g ! whr, pointer = storage g + size_mul whr (min_alloc g)\<rparr>)"

subsection \<open>Deallocation\<close>

text \<open>The forward scan for the start of the following allocation (lines 252 to 256).\<close>

function find_next :: "bool list \<Rightarrow> nat \<Rightarrow> nat \<Rightarrow> error + nat" where
  "find_next st n next_start =
     (if next_start < n then
        (if next_start < length st then
           (if st ! next_start then Inr next_start else find_next st n (next_start + 1))
         else Inl OutOfBounds)
      else Inr next_start)"
  by pat_completeness auto
termination
  by (relation "measure (\<lambda>(st, n, k). n - k)") auto

text \<open>The loop that erases the allocation record (lines 269 to 272).\<close>

function clear_run :: "bool list \<Rightarrow> nat \<Rightarrow> nat \<Rightarrow> error + bool list" where
  "clear_run iu next_start here =
     (if here < next_start then
        (if here < length iu then
           (if iu ! here then clear_run (iu[here := False]) next_start (here + 1) else Inr iu)
         else Inl OutOfBounds)
      else Inr iu)"
  by pat_completeness auto
termination
  by (relation "measure (\<lambda>(iu, n, k). n - k)") auto

text \<open>
  \<open>gpage::deallocate(p)\<close>. The difference of the two pointers is divided as a
  \<open>std::size_t\<close>, so a pointer below the storage gives a wrapped index.
\<close>

definition deallocate :: "gpage \<Rightarrow> pointer \<Rightarrow> error + gpage" where
  "deallocate g p =
     (case p of
        None \<Rightarrow> Inr g
      | Some pp \<Rightarrow>
          if min_alloc g = 0 then Inl DivisionByZero
          else
            let here = size_sub pp (storage g) div min_alloc g in
            if \<not> here < locations g then Inl AssertionFailed
            else if \<not> here < length (starts g) then Inl OutOfBounds
            else if \<not> starts g ! here then Inl AssertionFailed
            else if \<not> here < length (inuse g) then Inl OutOfBounds
            else if \<not> inuse g ! here then Inl AssertionFailed
            else
              let starts' = (starts g)[here := False] in
              (case find_next starts' (locations g) (size_add here 1) of
                 Inl e \<Rightarrow> Inl e
               | Inr next_start \<Rightarrow>
                   let bytes_unallocated_here =
                         size_mul (size_sub next_start here) (min_alloc g);
                       bound' = max (current_known_request_bound g) bytes_unallocated_here
                   in
                     (case clear_run (inuse g) next_start here of
                        Inl e \<Rightarrow> Inl e
                      | Inr inuse' \<Rightarrow>
                          Inr (g\<lparr>starts := starts', inuse := inuse',
                                 current_known_request_bound := bound'\<rparr>))))"

subsection \<open>Pages that the class can reach\<close>

text \<open>
  What the constructor establishes and no member function changes: a positive
  \<open>min_alloc\<close> that divides \<open>total_size\<close>, a page below half of the address space,
  and bitmaps that have an entry for every location and at most \<open>total_size\<close> entries.
\<close>

definition page_ok :: "gpage \<Rightarrow> bool" where
  "page_ok g =
     (0 < min_alloc g \<and> total_size g mod min_alloc g = 0 \<and> 2 * total_size g < size_mod \<and>
      locations g \<le> length (inuse g) \<and> length (inuse g) \<le> total_size g \<and>
      locations g \<le> length (starts g) \<and> length (starts g) \<le> total_size g)"

text \<open>
  The invariant of the two bitmaps: a start is in use, and a location in use whose
  predecessor is free (or that is location 0) is a start.
\<close>

definition bitmap_inv :: "gpage \<Rightarrow> bool" where
  "bitmap_inv g =
     ((\<forall>i \<in> {..<locations g}. starts g ! i \<longrightarrow> inuse g ! i) \<and>
      (\<forall>i \<in> {..<locations g}.
          inuse g ! i \<and> (i = 0 \<or> \<not> inuse g ! (i - 1)) \<longrightarrow> starts g ! i))"

subsection \<open>What the scanning loop establishes\<close>

text \<open>
  The relation between the arguments \<open>i\<close>, \<open>tr\<close> of \<open>scan\<close> and its result \<open>i'\<close>,
  \<open>tr'\<close>: the loop moves forwards, a result below \<open>end_at\<close> starts a free run of \<open>n\<close>
  locations, the indices read grow strictly, and with step 1 no candidate before the
  result starts a free run.
\<close>

definition scan_post ::
  "bool list \<Rightarrow> nat \<Rightarrow> nat \<Rightarrow> nat \<Rightarrow> nat \<Rightarrow> nat list \<Rightarrow> nat \<Rightarrow> nat list \<Rightarrow> bool" where
  "scan_post iu step n end_at i tr i' tr' =
     (i \<le> i' \<and>
      (i' < end_at \<longrightarrow> (\<forall>k<n. \<not> iu ! (i' + k))) \<and>
      (\<exists>ext. tr' = tr @ ext \<and> sorted_wrt (<) ext \<and> (\<forall>x\<in>set ext. i \<le> x)) \<and>
      (step = 1 \<longrightarrow> (\<forall>c. i \<le> c \<and> c < i' \<and> c < end_at \<longrightarrow> (\<exists>k<n. iu ! (c + k)))))"

subsection \<open>Example pages\<close>

text \<open>
  A page of 16 bytes in locations of 4 bytes whose storage is at address 4096, as
  \<open>gpage(16, 4)\<close> builds it, and the pages that follow it when \<open>allocate<T>(num)\<close> is
  called for an 8-byte \<open>T\<close> with \<open>num = 1\<close> (locations 0 and 1), then for a 3-byte \<open>T\<close>
  with \<open>num = 2\<close> (no room), then for a 5-byte \<open>T\<close> with \<open>num = 1\<close> (locations 2 and 3).
\<close>

definition zero_bytes :: "nat \<Rightarrow> byte" where
  "zero_bytes k = 0"

definition page16 :: gpage where
  "page16 = \<lparr> total_size = 16, min_alloc = 4, storage = 4096,
               storage_bytes = new_bytes zero_bytes 16,
               inuse = replicate 16 False, starts = replicate 16 False,
               current_known_request_bound = 16 \<rparr>"

definition page16_a :: gpage where
  "page16_a = page16\<lparr>starts := (starts page16)[0 := True],
                      inuse := fill (inuse page16) 0 2 True,
                      current_known_request_bound := 8\<rparr>"

definition page16_b :: gpage where
  "page16_b = page16_a\<lparr>current_known_request_bound := 5\<rparr>"

definition page16_c :: gpage where
  "page16_c = page16_b\<lparr>starts := (starts page16_b)[2 := True],
                        inuse := fill (inuse page16_b) 2 4 True,
                        current_known_request_bound := 18446744073709551613\<rparr>"

subsection \<open>Predicates of the claims\<close>

text \<open>
  \<open>is_next_start st n here ns\<close>: \<open>ns\<close> is the nearest location after \<open>here\<close> that starts
  an allocation, or the number \<open>n\<close> of locations if there is none.
\<close>

definition is_next_start :: "bool list \<Rightarrow> nat \<Rightarrow> nat \<Rightarrow> nat \<Rightarrow> bool" where
  "is_next_start st n here ns =
     (here < ns \<and> ns \<le> n \<and> (\<forall>k \<in> {here<..<ns}. \<not> st ! k) \<and> (ns < n \<longrightarrow> st ! ns))"

text \<open>
  The invariant in the wording of the specification (section 3, invariant 2): the
  locations in use form maximal contiguous runs (\<open>maximal_run iu n a b\<close> is the run from
  \<open>a\<close> up to \<open>b\<close>), and each run has exactly one start, at its first position.
\<close>

definition maximal_run :: "bool list \<Rightarrow> nat \<Rightarrow> nat \<Rightarrow> nat \<Rightarrow> bool" where
  "maximal_run iu n a b =
     (a < b \<and> b \<le> n \<and> (\<forall>k \<in> {a..<b}. iu ! k) \<and>
      (a = 0 \<or> \<not> iu ! (a - 1)) \<and> (b = n \<or> \<not> iu ! b))"

definition claimed_run_invariant :: "gpage \<Rightarrow> bool" where
  "claimed_run_invariant g =
     (\<forall>a \<in> {..<locations g}. \<forall>b \<in> {..locations g}.
        maximal_run (inuse g) (locations g) a b \<longrightarrow>
          starts g ! a \<and> (\<forall>k \<in> {a<..<b}. \<not> starts g ! k))"

text \<open>
  Two more pages of 16 bytes: one with allocations at locations 0, 1 and 3 and a free
  location 2, and the page that follows \<open>page16_a\<close> when its allocation is released.
\<close>

definition page16_gap :: gpage where
  "page16_gap = \<lparr> total_size = 16, min_alloc = 4, storage = 4096,
               storage_bytes = new_bytes zero_bytes 16,
               inuse = [True, True, False, True] @ replicate 12 False,
               starts = [True, True, False, True] @ replicate 12 False,
               current_known_request_bound = 4 \<rparr>"

definition page16_d :: gpage where
  "page16_d = page16_a\<lparr>starts := (starts page16_a)[0 := False],
                        inuse := (inuse page16_a)[0 := False, 1 := False],
                        current_known_request_bound := 16\<rparr>"

declare probe.simps [simp del] fill.simps [simp del] find_next.simps [simp del]
  clear_run.simps [simp del]

section \<open>Auxiliary facts\<close>

subsection \<open>Arithmetic of std::size_t\<close>

lemma size_mod_pos [simp]: "0 < size_mod"
  by (simp add: size_mod_def)

lemma size_add_eq: "a + b < size_mod \<Longrightarrow> size_add a b = a + b"
  by (simp add: size_add_def)

lemma size_sub_eq: "b \<le> a \<Longrightarrow> a < size_mod \<Longrightarrow> size_sub a b = a - b"
proof -
  assume a: "b \<le> a" "a < size_mod"
  then have "b mod size_mod = b" by simp
  then have "a + (size_mod - b mod size_mod) = (a - b) + 1 * size_mod" using a by simp
  then have "size_sub a b = ((a - b) + 1 * size_mod) mod size_mod" by (simp only: size_sub_def)
  also have "\<dots> = (a - b) mod size_mod" by (simp only: mod_mult_self1)
  also have "\<dots> = a - b" using a by simp
  finally show ?thesis .
qed

lemma size_sub_lt: "size_sub a b < size_mod"
  by (simp add: size_sub_def)

lemma size_add_lt: "size_add a b < size_mod"
  by (simp add: size_add_def)

lemma size_mul_eq: "a * b < size_mod \<Longrightarrow> size_mul a b = a * b"
  by (simp add: size_mul_def)

lemma is_pow2_bounds: "is_pow2 n \<Longrightarrow> 0 < n \<and> 2 * n \<le> size_mod"
proof -
  assume "is_pow2 n"
  then obtain k where k: "k < 64" "n = 2 ^ k" by (auto simp: is_pow2_def)
  have "(2::nat) ^ Suc k \<le> 2 ^ 64" using k(1) by (intro power_increasing) auto
  then show ?thesis using k(2) by (simp add: size_mod_def)
qed

lemma is_pow2_1: "is_pow2 1"
  unfolding is_pow2_def by (rule bexI[of _ 0]) auto

lemma is_pow2_4: "is_pow2 4"
  unfolding is_pow2_def by (rule bexI[of _ 2]) auto

lemma is_pow2_8: "is_pow2 8"
  unfolding is_pow2_def by (rule bexI[of _ 3]) auto

subsection \<open>The loop functions\<close>

lemma length_fill [simp]: "length (fill xs a b v) = length xs"
  by (induction xs a b v rule: fill.induct) (subst fill.simps, simp)

lemma nth_fill:
  "k < length xs \<Longrightarrow> fill xs a b v ! k = (if a \<le> k \<and> k < b then v else xs ! k)"
proof (induction xs a b v rule: fill.induct)
  case (1 xs first lst v)
  show ?case
  proof (cases "first < lst")
    case True
    then show ?thesis
      using 1 by (subst fill.simps) (auto simp: nth_list_update)
  next
    case False
    then show ?thesis by (subst fill.simps) auto
  qed
qed

lemma probe_result:
  assumes "probe iu i n j tr = Inr (j', tr')" "j \<le> n" "i + n \<le> size_mod"
  shows "j \<le> j' \<and> j' \<le> n \<and>
         (\<forall>k. j \<le> k \<and> k < j' \<longrightarrow> i + k < length iu \<and> \<not> iu ! (i + k)) \<and>
         (j' < n \<longrightarrow> i + j' < length iu \<and> iu ! (i + j')) \<and>
         tr' = tr @ map (\<lambda>k. i + k) [j ..< (if j' < n then j' + 1 else n)]"
  using assms
proof (induction iu i n j tr rule: probe.induct)
  case (1 iu i needed j tr)
  show ?case
  proof (cases "j < needed")
    case False
    with 1 show ?thesis by (subst (asm) probe.simps) auto
  next
    case True
    then have sa: "size_add i j = i + j" using "1.prems" by (simp add: size_add_eq)
    show ?thesis
    proof (cases "i + j < length iu")
      case False
      with True sa "1.prems" show ?thesis by (subst (asm) probe.simps) auto
    next
      case inr: True
      show ?thesis
      proof (cases "iu ! (i + j)")
        case True
        with \<open>j < needed\<close> sa inr "1.prems" show ?thesis
          by (subst (asm) probe.simps) auto
      next
        case False
        with \<open>j < needed\<close> sa inr "1.prems"
        have rec: "probe iu i needed (j + 1) (tr @ [size_add i j]) = Inr (j', tr')"
          by (subst (asm) probe.simps) auto
        have ih: "j + 1 \<le> j' \<and> j' \<le> needed \<and>
           (\<forall>k. j + 1 \<le> k \<and> k < j' \<longrightarrow> i + k < length iu \<and> \<not> iu ! (i + k)) \<and>
           (j' < needed \<longrightarrow> i + j' < length iu \<and> iu ! (i + j')) \<and>
           tr' = (tr @ [size_add i j]) @ map (\<lambda>k. i + k) [j + 1 ..< (if j' < needed then j' + 1 else needed)]"
          using "1.IH"[OF \<open>j < needed\<close> _ _ rec] \<open>j < needed\<close> sa inr False "1.prems" by simp
        have "\<forall>k. j \<le> k \<and> k < j' \<longrightarrow> i + k < length iu \<and> \<not> iu ! (i + k)"
        proof (intro allI impI)
          fix k assume "j \<le> k \<and> k < j'"
          then show "i + k < length iu \<and> \<not> iu ! (i + k)"
            using ih inr False by (cases "k = j") auto
        qed
        moreover have "tr' = tr @ map (\<lambda>k. i + k) [j ..< (if j' < needed then j' + 1 else needed)]"
          using ih sa \<open>j < needed\<close> by (auto simp: upt_conv_Cons)
        ultimately show ?thesis using ih by auto
      qed
    qed
  qed
qed

lemma probe_total:
  assumes "i + n \<le> length iu" "i + n \<le> size_mod"
  shows "\<exists>j' tr'. probe iu i n j tr = Inr (j', tr')"
  using assms
proof (induction iu i n j tr rule: probe.induct)
  case (1 iu i needed j tr)
  show ?case
  proof (cases "j < needed")
    case False
    then show ?thesis by (subst probe.simps) auto
  next
    case True
    then have sa: "size_add i j = i + j" using "1.prems" by (simp add: size_add_eq)
    have inr: "i + j < length iu" using True "1.prems" by simp
    show ?thesis
    proof (cases "iu ! (i + j)")
      case True
      with \<open>j < needed\<close> sa inr show ?thesis by (subst probe.simps) auto
    next
      case False
      with "1.IH"[OF \<open>j < needed\<close>] \<open>j < needed\<close> sa inr "1.prems" show ?thesis
        by (subst probe.simps) auto
    qed
  qed
qed

lemma find_start_result:
  assumes "i < w" "w \<le> length st" "st ! i" "\<forall>k. i < k \<and> k < w \<longrightarrow> \<not> st ! k"
  shows "find_start st w = Inr (Suc i)"
  using assms
proof (induction w)
  case 0
  then show ?case by simp
next
  case (Suc w)
  show ?case
  proof (cases "i = w")
    case True
    with Suc.prems show ?thesis by simp
  next
    case False
    with Suc.prems have "i < w" "\<not> st ! w" by auto
    with Suc show ?thesis by auto
  qed
qed

lemma find_next_result:
  assumes "k \<le> n" "n \<le> length st"
  shows "\<exists>r. find_next st n k = Inr r \<and> k \<le> r \<and> r \<le> n \<and>
           (\<forall>m. k \<le> m \<and> m < r \<longrightarrow> \<not> st ! m) \<and> (r < n \<longrightarrow> st ! r)"
  using assms
proof (induction st n k rule: find_next.induct)
  case (1 st n k)
  show ?case
  proof (cases "k < n")
    case False
    with "1.prems" show ?thesis by (subst find_next.simps) auto
  next
    case True
    then have inr: "k < length st" using "1.prems" by simp
    show ?thesis
    proof (cases "st ! k")
      case True
      with \<open>k < n\<close> inr show ?thesis by (subst find_next.simps) auto
    next
      case False
      from "1.IH"[OF \<open>k < n\<close> inr False] \<open>k < n\<close> "1.prems"
      obtain r where r: "find_next st n (k + 1) = Inr r" "k + 1 \<le> r" "r \<le> n"
        "\<forall>m. k + 1 \<le> m \<and> m < r \<longrightarrow> \<not> st ! m" "r < n \<longrightarrow> st ! r"
        by auto
      have "\<forall>m. k \<le> m \<and> m < r \<longrightarrow> \<not> st ! m"
      proof (intro allI impI)
        fix m assume "k \<le> m \<and> m < r"
        then show "\<not> st ! m" using r(4) False by (cases "m = k") auto
      qed
      with r \<open>k < n\<close> inr False show ?thesis by (subst find_next.simps) auto
    qed
  qed
qed

lemma clear_run_result:
  assumes "here \<le> n" "n \<le> length iu"
  shows "\<exists>e iu'. clear_run iu n here = Inr iu' \<and> here \<le> e \<and> e \<le> n \<and> length iu' = length iu \<and>
           (\<forall>k. here \<le> k \<and> k < e \<longrightarrow> iu ! k) \<and> (e < n \<longrightarrow> \<not> iu ! e) \<and>
           (\<forall>k < length iu. iu' ! k = (if here \<le> k \<and> k < e then False else iu ! k))"
  using assms
proof (induction iu n here rule: clear_run.induct)
  case (1 iu n here)
  show ?case
  proof (cases "here < n")
    case False
    with "1.prems" show ?thesis
      by (subst clear_run.simps) (auto intro!: exI[of _ here])
  next
    case True
    then have inr: "here < length iu" using "1.prems" by simp
    show ?thesis
    proof (cases "iu ! here")
      case False
      with \<open>here < n\<close> inr show ?thesis
        by (subst clear_run.simps) (auto intro!: exI[of _ here])
    next
      case True
      from "1.IH"[OF \<open>here < n\<close> inr True] \<open>here < n\<close> "1.prems"
      obtain e iu' where r: "clear_run (iu[here := False]) n (here + 1) = Inr iu'"
        "here + 1 \<le> e" "e \<le> n" "length iu' = length iu"
        "\<forall>k. here + 1 \<le> k \<and> k < e \<longrightarrow> iu[here := False] ! k"
        "e < n \<longrightarrow> \<not> iu[here := False] ! e"
        "\<forall>k < length iu. iu' ! k = (if here + 1 \<le> k \<and> k < e then False else iu[here := False] ! k)"
        by auto
      have a: "\<forall>k. here \<le> k \<and> k < e \<longrightarrow> iu ! k"
      proof (intro allI impI)
        fix k assume "here \<le> k \<and> k < e"
        then show "iu ! k" using r(5) True by (cases "k = here") auto
      qed
      have b: "e < n \<longrightarrow> \<not> iu ! e" using r(2,6) by auto
      have c: "\<forall>k < length iu. iu' ! k = (if here \<le> k \<and> k < e then False else iu ! k)"
      proof (intro allI impI)
        fix k assume "k < length iu"
        then show "iu' ! k = (if here \<le> k \<and> k < e then False else iu ! k)"
          using r(7) r(2) by (cases "k = here") (auto simp: nth_list_update)
      qed
      have "clear_run iu n here = Inr iu'"
        using r(1) \<open>here < n\<close> inr True by (subst clear_run.simps) simp
      with a b c r(2,3,4) show ?thesis by (intro exI[of _ e] exI[of _ iu']) auto
    qed
  qed
qed

lemma sorted_wrt_run: "sorted_wrt (<) (map (\<lambda>k. i + k) [a..<b])"
  by (simp add: sorted_wrt_map)

lemma scan_result:
  assumes "0 < step" "end_at + n \<le> length iu + 1" "length iu + step \<le> size_mod"
  shows "\<exists>i' tr'. scan iu step n end_at i tr = Some (Inr (i', tr')) \<and>
           scan_post iu step n end_at i tr i' tr'"
proof (induction "end_at - i" arbitrary: i tr rule: less_induct)
  case less
  show ?case
  proof (cases "i < end_at")
    case False
    then have "scan iu step n end_at i tr = Some (Inr (i, tr))"
      by (subst scan.simps) simp
    moreover have "scan_post iu step n end_at i tr i tr"
      using False by (auto simp: scan_post_def)
    ultimately show ?thesis by blast
  next
    case True
    then have fits: "i + n \<le> length iu" "i + n \<le> size_mod"
      using assms by auto
    from probe_total[OF fits, of 0 tr]
    obtain j tr1 where p: "probe iu i n 0 tr = Inr (j, tr1)" by blast
    from probe_result[OF p _ fits(2)]
    have pr: "j \<le> n" "\<forall>k. k < j \<longrightarrow> \<not> iu ! (i + k)"
      "j < n \<longrightarrow> i + j < length iu \<and> iu ! (i + j)"
      "tr1 = tr @ map (\<lambda>k. i + k) [0 ..< (if j < n then j + 1 else n)]"
      by auto
    show ?thesis
    proof (cases "j = n")
      case True
      have "scan iu step n end_at i tr = Some (Inr (i, tr1))"
        using \<open>i < end_at\<close> p True by (subst scan.simps) simp
      moreover have "scan_post iu step n end_at i tr i tr1"
        unfolding scan_post_def using pr True by (auto simp: sorted_wrt_run)
      ultimately show ?thesis by blast
    next
      case False
      then have jn: "j < n" using pr(1) by simp
      then have occ: "i + j < length iu" "iu ! (i + j)" using pr(3) by auto
      define i2 where "i2 = i + j + step"
      have nxt: "size_add (size_add i j) step = i2"
        using occ(1) assms(3) by (simp add: size_add_eq i2_def)
      have tr1: "tr1 = tr @ map (\<lambda>k. i + k) [0 ..< j + 1]" using pr(4) jn by simp
      have "end_at - i2 < end_at - i" using \<open>i < end_at\<close> assms(1) by (simp add: i2_def)
      from less[OF this, of tr1]
      obtain i' tr' where r: "scan iu step n end_at i2 tr1 = Some (Inr (i', tr'))"
        "scan_post iu step n end_at i2 tr1 i' tr'" by blast
      have eq: "scan iu step n end_at i tr = Some (Inr (i', tr'))"
        using \<open>i < end_at\<close> p False nxt r(1) by (subst scan.simps) simp
      from r(2) obtain ext where ext: "tr' = tr1 @ ext" "sorted_wrt (<) ext" "\<forall>x\<in>set ext. i2 \<le> x"
        by (auto simp: scan_post_def)
      have a: "i \<le> i'" using r(2) by (simp add: scan_post_def i2_def)
      have b: "i' < end_at \<longrightarrow> (\<forall>k<n. \<not> iu ! (i' + k))" using r(2) by (simp add: scan_post_def)
      have c: "\<exists>ext'. tr' = tr @ ext' \<and> sorted_wrt (<) ext' \<and> (\<forall>x\<in>set ext'. i \<le> x)"
      proof (intro exI conjI)
        show "tr' = tr @ (map (\<lambda>k. i + k) [0 ..< j + 1] @ ext)" using ext(1) tr1 by simp
        show "sorted_wrt (<) (map (\<lambda>k. i + k) [0 ..< j + 1] @ ext)"
          using ext(2,3) assms(1) unfolding sorted_wrt_append
          by (auto simp: sorted_wrt_run i2_def simp del: upt_Suc)
        show "\<forall>x\<in>set (map (\<lambda>k. i + k) [0 ..< j + 1] @ ext). i \<le> x"
          using ext(3) by (auto simp: i2_def)
      qed
      have d: "step = 1 \<longrightarrow> (\<forall>c. i \<le> c \<and> c < i' \<and> c < end_at \<longrightarrow> (\<exists>k<n. iu ! (c + k)))"
      proof (intro impI allI)
        fix c assume s1: "step = 1" and c: "i \<le> c \<and> c < i' \<and> c < end_at"
        show "\<exists>k<n. iu ! (c + k)"
        proof (cases "c \<le> i + j")
          case True
          then have "i + j - c < n" "c + (i + j - c) = i + j" using jn c by auto
          then show ?thesis using occ(2) by metis
        next
          case False
          then have "i2 \<le> c" using s1 by (simp add: i2_def)
          then show ?thesis using r(2) s1 c by (auto simp: scan_post_def)
        qed
      qed
      have "scan_post iu step n end_at i tr i' tr'"
        unfolding scan_post_def using a b c d by blast
      with eq show ?thesis by blast
    qed
  qed
qed

subsection \<open>The arithmetic of allocate\<close>

lemma page_ok_total: "page_ok g \<Longrightarrow> total_size g = locations g * min_alloc g"
proof -
  assume "page_ok g"
  then have "min_alloc g dvd total_size g" by (simp add: page_ok_def mod_eq_0_iff_dvd)
  then show ?thesis by (simp add: locations_def)
qed

lemma round_up_bounds:
  assumes "0 < (al::nat)"
  shows "p \<le> ((p + al - 1) div al) * al \<and> ((p + al - 1) div al) * al - p < al"
proof -
  define q where "q = (p + al - 1) div al"
  define r where "r = (p + al - 1) mod al"
  have "q * al + r = p + al - 1" unfolding q_def r_def by simp
  moreover have "r < al" unfolding r_def using assms by simp
  ultimately have "p \<le> q * al \<and> q * al - p < al" using assms by linarith
  then show ?thesis by (simp add: q_def)
qed

lemma std_align_Some:
  assumes "std_align al sz p space = Inr (Some a)"
  shows "is_pow2 al \<and> sz \<le> space \<and> p \<le> a \<and> a - p < al \<and> a - p \<le> space - sz"
proof -
  have pw: "is_pow2 al" using assms by (auto simp: std_align_def split: if_splits)
  then have "0 < al" using is_pow2_bounds by blast
  from round_up_bounds[OF this, of p] assms pw show ?thesis
    by (auto simp: std_align_def Let_def split: if_splits)
qed

lemma alloc_arith:
  assumes ok: "page_ok g" and sz: "0 < size_T" "0 < num" "size_T * num < size_mod"
    and fit: "size_T * num \<le> total_size g"
  shows "bytes_needed size_T num = size_T * num"
    and "locations_needed g size_T num =
           1 + (size_T * num - 1) div min_alloc g + (if num > 1 then 1 else 0)"
    and "locations_needed g size_T num \<le> locations g + 1"
    and "end_loc g size_T num = locations g + 1 - locations_needed g size_T num"
proof -
  let ?ma = "min_alloc g" and ?L = "locations g" and ?B = "size_T * num"
  have ma: "0 < ?ma" using ok by (simp add: page_ok_def)
  have T: "total_size g = ?L * ?ma" using ok by (rule page_ok_total)
  have small: "2 * total_size g < size_mod" using ok by (simp add: page_ok_def)
  show B: "bytes_needed size_T num = ?B" using sz by (simp add: bytes_needed_def size_mul_eq)
  have Bpos: "0 < ?B" using sz by simp
  have sub: "size_sub ?B 1 = ?B - 1" using Bpos sz(3) by (simp add: size_sub_eq)
  have "?B - 1 < ?L * ?ma" using fit T Bpos by linarith
  then have q: "(?B - 1) div ?ma < ?L" using ma by (simp add: less_mult_imp_div_less)
  have "?L \<le> total_size g" using T ma by simp
  then have Lsmall: "?L + 1 < size_mod" using small q by linarith
  have a1: "size_add 1 ((?B - 1) div ?ma) = 1 + (?B - 1) div ?ma"
    using q Lsmall by (simp add: size_add_eq)
  show N: "locations_needed g size_T num = 1 + (?B - 1) div ?ma + (if num > 1 then 1 else 0)"
    unfolding locations_needed_def B sub a1 using q Lsmall by (simp add: size_add_eq)
  show Nle: "locations_needed g size_T num \<le> ?L + 1" using N q by simp
  show "end_loc g size_T num = ?L + 1 - locations_needed g size_T num"
  proof (cases "locations_needed g size_T num \<le> ?L")
    case True
    then show ?thesis unfolding end_loc_def using Lsmall
      by (simp add: size_sub_eq size_add_eq)
  next
    case False
    then have e: "locations_needed g size_T num = ?L + 1" using Nle by simp
    have "size_sub ?L (?L + 1) = size_mod - 1"
      using Lsmall by (simp add: size_sub_def)
    then show ?thesis unfolding end_loc_def e by (simp add: size_add_def)
  qed
qed

lemma step_arith:
  assumes ok: "page_ok g" and pw: "is_pow2 al"
  shows "locations_step g al = 1 + (al - 1) div min_alloc g"
    and "0 < locations_step g al" and "locations_step g al \<le> al"
proof -
  have al: "0 < al" "2 * al \<le> size_mod" using is_pow2_bounds[OF pw] by auto
  have ma: "0 < min_alloc g" using ok by (simp add: page_ok_def)
  have sub: "size_sub al 1 = al - 1" using al by (simp add: size_sub_eq)
  have d: "(al - 1) div min_alloc g \<le> al - 1" by simp
  then have "1 + (al - 1) div min_alloc g < size_mod" using al by linarith
  then show s: "locations_step g al = 1 + (al - 1) div min_alloc g"
    unfolding locations_step_def sub by (simp add: size_add_eq)
  show "0 < locations_step g al" using s by simp
  show "locations_step g al \<le> al" using s d al by linarith
qed

subsection \<open>What a call of allocate does\<close>

lemma allocate_traced_scan:
  assumes ok: "page_ok g" and sz: "0 < size_T" "0 < num" "size_T * num < size_mod"
    and nb: "size_T * num \<le> current_known_request_bound g"
    and al: "std_align align_T (size_T * num) (storage g) (total_size g) = Inr (Some a)"
    and i0: "(a - storage g) div min_alloc g = 0"
  shows "\<exists>i tr.
      scan (inuse g) (locations_step g align_T) (locations_needed g size_T num)
        (end_loc g size_T num) 0 [] = Some (Inr (i, tr)) \<and>
      scan_post (inuse g) (locations_step g align_T) (locations_needed g size_T num)
        (end_loc g size_T num) 0 [] i tr \<and>
      allocate_traced g size_T align_T num =
        Some (Inr (if i \<ge> end_loc g size_T num
          then (None,
                g\<lparr>current_known_request_bound :=
                    min (current_known_request_bound g) (size_T * num - 1)\<rparr>, tr)
          else (Some (storage g + i * min_alloc g),
                g\<lparr>starts := (starts g)[i := True],
                   inuse := fill (inuse g) i (i + locations_needed g size_T num) True,
                   current_known_request_bound :=
                     size_sub (current_known_request_bound g)
                       (min_alloc g * locations_needed g size_T num)\<rparr>, tr)))"
proof -
  let ?N = "locations_needed g size_T num" and ?E = "end_loc g size_T num"
  let ?S = "locations_step g align_T" and ?L = "locations g" and ?ma = "min_alloc g"
  from std_align_Some[OF al] have pw: "is_pow2 align_T" and fit: "size_T * num \<le> total_size g"
    by auto
  note ar = alloc_arith[OF ok sz fit]
  note st = step_arith[OF ok pw]
  have ma: "0 < ?ma" and T: "total_size g = ?L * ?ma" and small: "2 * total_size g < size_mod"
    and len: "?L \<le> length (inuse g)" "length (inuse g) \<le> total_size g"
      "?L \<le> length (starts g)"
    using ok page_ok_total[OF ok] by (simp_all add: page_ok_def)
  have h2: "?E + ?N \<le> length (inuse g) + 1" using ar(3,4) len(1) by simp
  have "2 * align_T \<le> size_mod" using is_pow2_bounds[OF pw] by simp
  then have h3: "length (inuse g) + ?S \<le> size_mod" using st(3) len(2) small by linarith
  from scan_result[OF st(2) h2 h3, of 0 "[]"]
  obtain i tr where sc: "scan (inuse g) ?S ?N ?E 0 [] = Some (Inr (i, tr))"
    and post: "scan_post (inuse g) ?S ?N ?E 0 [] i tr" by blast
  have B: "bytes_needed size_T num = size_T * num" by (rule ar(1))
  have sub1: "size_sub (size_T * num) 1 = size_T * num - 1"
    using sz by (simp add: size_sub_eq)
  have succ: "i < length (starts g) \<and> i + ?N \<le> length (inuse g) \<and>
      size_mul i ?ma = i * ?ma \<and> size_mul ?ma ?N = ?ma * ?N" if lt: "i < ?E"
  proof -
    have iN: "i + ?N \<le> ?L" using lt ar(3,4) by simp
    have Npos: "0 < ?N" using ar(2) by simp
    have "i * ?ma \<le> ?L * ?ma" using iN by (intro mult_le_mono1) simp
    then have m1: "i * ?ma < size_mod" using T small by linarith
    have "?N * ?ma \<le> ?L * ?ma" using iN by (intro mult_le_mono1) simp
    then have "?ma * ?N \<le> ?L * ?ma" by (simp only: mult.commute)
    then have m2: "?ma * ?N < size_mod" using T small by linarith
    show ?thesis using iN Npos len m1 m2 by (simp add: size_mul_eq)
  qed
  have "allocate_traced g size_T align_T num =
        Some (Inr (if i \<ge> ?E
          then (None,
                g\<lparr>current_known_request_bound :=
                    min (current_known_request_bound g) (size_T * num - 1)\<rparr>, tr)
          else (Some (storage g + i * ?ma),
                g\<lparr>starts := (starts g)[i := True],
                   inuse := fill (inuse g) i (i + ?N) True,
                   current_known_request_bound :=
                     size_sub (current_known_request_bound g) (?ma * ?N)\<rparr>, tr)))"
  proof (cases "i \<ge> ?E")
    case True
    then show ?thesis
      unfolding allocate_traced_def B using nb al i0 sc sub1 ma by simp
  next
    case False
    then have "i < ?E" by simp
    from succ[OF this] False show ?thesis
      unfolding allocate_traced_def B using nb al i0 sc ma by simp
  qed
  with sc post show ?thesis by blast
qed

lemma allocate_traced_SomeD:
  assumes "allocate_traced g size_T align_T num = Some (Inr (Some p, g', tr))"
  shows "bytes_needed size_T num \<le> current_known_request_bound g \<and>
         (\<exists>a. std_align align_T (bytes_needed size_T num) (storage g) (total_size g) = Inr (Some a) \<and>
              (a - storage g) div min_alloc g = 0)"
  using assms unfolding allocate_traced_def
  by (auto split: if_splits sum.splits option.splits)

lemma is_pow2_Suc0: "is_pow2 (Suc 0)"
  using is_pow2_1 by simp

lemma bytes_needed_eq: "size_T * num < size_mod \<Longrightarrow> bytes_needed size_T num = size_T * num"
  by (simp add: bytes_needed_def size_mul_eq)

lemma allocate_traced_success:
  assumes ok: "page_ok g" and sz: "0 < size_T" "0 < num" "size_T * num < size_mod"
    and res: "allocate_traced g size_T align_T num = Some (Inr (Some p, g', tr))"
  shows "\<exists>i. i + locations_needed g size_T num \<le> locations g \<and>
           (size_T * num - 1) div min_alloc g < locations_needed g size_T num \<and>
           p = storage g + i * min_alloc g \<and>
           (\<forall>k<locations_needed g size_T num. \<not> inuse g ! (i + k)) \<and>
           g' = g\<lparr>starts := (starts g)[i := True],
                   inuse := fill (inuse g) i (i + locations_needed g size_T num) True,
                   current_known_request_bound :=
                     size_sub (current_known_request_bound g)
                       (min_alloc g * locations_needed g size_T num)\<rparr> \<and>
           sorted_wrt (<) tr"
proof -
  let ?N = "locations_needed g size_T num" and ?E = "end_loc g size_T num"
  have B: "bytes_needed size_T num = size_T * num" using sz(3) by (rule bytes_needed_eq)
  from allocate_traced_SomeD[OF res] obtain a where
    nb: "size_T * num \<le> current_known_request_bound g" and
    al: "std_align align_T (size_T * num) (storage g) (total_size g) = Inr (Some a)" and
    i0: "(a - storage g) div min_alloc g = 0"
    unfolding B by blast
  from std_align_Some[OF al] have fit: "size_T * num \<le> total_size g" by simp
  note ar = alloc_arith[OF ok sz fit]
  from allocate_traced_scan[OF ok sz nb al i0] obtain i tr' where
    post: "scan_post (inuse g) (locations_step g align_T) ?N ?E 0 [] i tr'" and
    eq: "allocate_traced g size_T align_T num =
        Some (Inr (if i \<ge> ?E
          then (None,
                g\<lparr>current_known_request_bound :=
                    min (current_known_request_bound g) (size_T * num - 1)\<rparr>, tr')
          else (Some (storage g + i * min_alloc g),
                g\<lparr>starts := (starts g)[i := True],
                   inuse := fill (inuse g) i (i + ?N) True,
                   current_known_request_bound :=
                     size_sub (current_known_request_bound g) (min_alloc g * ?N)\<rparr>, tr')))"
    by blast
  have lt: "i < ?E" using eq res by (cases "i \<ge> ?E") auto
  then have r: "p = storage g + i * min_alloc g" "tr = tr'"
    "g' = g\<lparr>starts := (starts g)[i := True],
            inuse := fill (inuse g) i (i + ?N) True,
            current_known_request_bound :=
              size_sub (current_known_request_bound g) (min_alloc g * ?N)\<rparr>"
    using eq res by auto
  have iN: "i + ?N \<le> locations g" using lt ar(3,4) by simp
  have q: "(size_T * num - 1) div min_alloc g < ?N" using ar(2) by simp
  have free: "\<forall>k<?N. \<not> inuse g ! (i + k)" using post lt by (simp add: scan_post_def)
  have "sorted_wrt (<) tr" using post r(2) by (auto simp: scan_post_def)
  with iN q r(1,3) free show ?thesis by blast
qed

lemma allocate_tracedI:
  "allocate g size_T align_T num = Some (Inr (p, g')) \<Longrightarrow>
   \<exists>tr. allocate_traced g size_T align_T num = Some (Inr (p, g', tr))"
  unfolding allocate_def
  by (cases "allocate_traced g size_T align_T num") (auto simp: map_sum_def split: sum.splits)

lemma slot_of_offset:
  assumes "0 < (ma::nat)"
  shows "(s + i * ma + k - s) div ma = i + k div ma"
proof -
  have "s + i * ma + k - s = k + i * ma" by simp
  then show ?thesis using assms by simp
qed

lemma bitmap_inv_startsD:
  "bitmap_inv g \<Longrightarrow> i < locations g \<Longrightarrow> starts g ! i \<Longrightarrow> inuse g ! i"
  unfolding bitmap_inv_def by blast

lemmas eval_defs = allocate_def allocate_traced_def bytes_needed_def locations_step_def
  locations_needed_def end_loc_def locations_def size_add_def size_sub_def size_mul_def
  size_mod_def std_align_def Let_def scan.simps probe.simps fill.simps nth_list_update
  gpage_new_def deallocate_def contains_def address_of_def find_next.simps clear_run.simps
  is_pow2_1 is_pow2_4 is_pow2_8 is_pow2_Suc0

lemmas page16_defs = page16_def page16_a_def page16_b_def page16_c_def

lemma allocate_traced_NoneD:
  assumes "allocate_traced g size_T align_T num = Some (Inr (None, g', tr))"
  shows "g' = g \<or>
         g' = g\<lparr>current_known_request_bound :=
                 min (current_known_request_bound g) (size_sub (bytes_needed size_T num) 1)\<rparr>"
  using assms unfolding allocate_traced_def
  by (auto split: if_splits sum.splits option.splits)

lemma size_sub_self: "size_sub a a = 0"
proof -
  have "a mod size_mod < size_mod" by simp
  then have "a + (size_mod - a mod size_mod) = a div size_mod * size_mod + 1 * size_mod"
    using div_mult_mod_eq[of a size_mod] by linarith
  then show ?thesis by (simp add: size_sub_def)
qed

lemma std_align_fits:
  assumes pw: "is_pow2 al" and fit: "sz + al \<le> space + 1"
  shows "\<exists>a. std_align al sz p space = Inr (Some a) \<and> p \<le> a \<and> a - p < al"
proof -
  have al: "0 < al" using is_pow2_bounds[OF pw] by simp
  from round_up_bounds[OF al, of p] fit pw show ?thesis
    by (auto simp: std_align_def Let_def)
qed

lemma allocate_traced_small_align:
  assumes pw: "is_pow2 al" and le: "al \<le> min_alloc g"
    and fit: "bytes_needed size_T num + al \<le> total_size g + 1"
    and nb: "bytes_needed size_T num \<le> current_known_request_bound g"
  shows "allocate_traced g size_T al num =
     (case scan (inuse g) (locations_step g al) (locations_needed g size_T num)
             (end_loc g size_T num) 0 [] of
        None \<Rightarrow> None
      | Some (Inl e) \<Rightarrow> Some (Inl e)
      | Some (Inr (i, tr)) \<Rightarrow>
          if i \<ge> end_loc g size_T num then
            Some (Inr (None,
              g\<lparr>current_known_request_bound :=
                  min (current_known_request_bound g)
                      (size_sub (bytes_needed size_T num) 1)\<rparr>,
              tr))
          else if \<not> i < length (starts g) then Some (Inl OutOfBounds)
          else if \<not> i + locations_needed g size_T num \<le> length (inuse g)
            then Some (Inl OutOfBounds)
          else
            Some (Inr (Some (storage g + size_mul i (min_alloc g)),
              g\<lparr>starts := (starts g)[i := True],
                 inuse := fill (inuse g) i (i + locations_needed g size_T num) True,
                 current_known_request_bound :=
                   size_sub (current_known_request_bound g)
                     (size_mul (min_alloc g) (locations_needed g size_T num))\<rparr>,
              tr)))"
proof -
  from std_align_fits[OF pw fit, of "storage g"] obtain a where
    a: "std_align al (bytes_needed size_T num) (storage g) (total_size g) = Inr (Some a)"
    "a - storage g < al" by blast
  then have "(a - storage g) div min_alloc g = 0" using le by simp
  moreover have "min_alloc g \<noteq> 0" using le is_pow2_bounds[OF pw] by simp
  ultimately show ?thesis using a(1) nb unfolding allocate_traced_def by simp
qed

lemma size_sub_small: "b \<le> a \<Longrightarrow> a < 18446744073709551616 \<Longrightarrow> size_sub a b = a - b"
  using size_sub_eq[of b a] by (simp add: size_mod_def)

lemmas eval_defs_small_align = allocate_def bytes_needed_def locations_step_def
  locations_needed_def end_loc_def locations_def size_add_def size_mul_def
  size_mod_def Let_def scan.simps probe.simps fill.simps nth_list_update
  gpage_new_def deallocate_def contains_def address_of_def find_next.simps clear_run.simps
  is_pow2_1 is_pow2_4 is_pow2_8 is_pow2_Suc0 size_sub_self

lemma allocate_traced_sorted:
  assumes ok: "page_ok g" and sz: "0 < size_T" "0 < num" "size_T * num < size_mod"
    and res: "allocate_traced g size_T align_T num = Some (Inr (r, g', tr))"
  shows "sorted_wrt (<) tr"
proof (cases "bytes_needed size_T num > current_known_request_bound g")
  case True
  then show ?thesis using res by (simp add: allocate_traced_def)
next
  case nb: False
  have B: "bytes_needed size_T num = size_T * num" using sz(3) by (rule bytes_needed_eq)
  show ?thesis
  proof (cases "std_align align_T (size_T * num) (storage g) (total_size g)")
    case (Inl e)
    then show ?thesis using res nb by (simp add: allocate_traced_def B)
  next
    case (Inr pa)
    show ?thesis
    proof (cases pa)
      case None
      then show ?thesis using res nb Inr by (simp add: allocate_traced_def B)
    next
      case (Some a)
      show ?thesis
      proof (cases "(a - storage g) div min_alloc g = 0")
        case False
        moreover have "min_alloc g \<noteq> 0" using ok by (simp add: page_ok_def)
        ultimately show ?thesis using res nb Inr Some by (simp add: allocate_traced_def B)
      next
        case True
        have al: "std_align align_T (size_T * num) (storage g) (total_size g) = Inr (Some a)"
          using Inr Some by simp
        have nb': "size_T * num \<le> current_known_request_bound g" using nb B by simp
        from allocate_traced_scan[OF ok sz nb' al True] obtain i tr' where
          post: "scan_post (inuse g) (locations_step g align_T) (locations_needed g size_T num)
                   (end_loc g size_T num) 0 [] i tr'" and
          eq: "allocate_traced g size_T align_T num =
            Some (Inr (if i \<ge> end_loc g size_T num
              then (None,
                    g\<lparr>current_known_request_bound :=
                        min (current_known_request_bound g) (size_T * num - 1)\<rparr>, tr')
              else (Some (storage g + i * min_alloc g),
                    g\<lparr>starts := (starts g)[i := True],
                       inuse := fill (inuse g) i (i + locations_needed g size_T num) True,
                       current_known_request_bound :=
                         size_sub (current_known_request_bound g)
                           (min_alloc g * locations_needed g size_T num)\<rparr>, tr')))"
          by blast
        have "tr = tr'" using eq res by (cases "i \<ge> end_loc g size_T num") auto
        then show ?thesis using post by (auto simp: scan_post_def)
      qed
    qed
  qed
qed

lemma allocate_traced_first_fit:
  assumes ok: "page_ok g" and sz: "0 < size_T" "0 < num" "size_T * num < size_mod"
    and nb: "size_T * num \<le> current_known_request_bound g"
    and al: "std_align align_T (size_T * num) (storage g) (total_size g) = Inr (Some a)"
    and le: "align_T \<le> min_alloc g"
    and c: "c + locations_needed g size_T num \<le> locations g"
    and free: "\<forall>k<locations_needed g size_T num. \<not> inuse g ! (c + k)"
  shows "\<exists>i g' tr.
      allocate_traced g size_T align_T num =
        Some (Inr (Some (storage g + i * min_alloc g), g', tr)) \<and>
      i \<le> c \<and> (\<forall>k<locations_needed g size_T num. \<not> inuse g ! (i + k)) \<and>
      (\<forall>c'<i. \<exists>k<locations_needed g size_T num. inuse g ! (c' + k))"
proof -
  let ?N = "locations_needed g size_T num" and ?E = "end_loc g size_T num"
  from std_align_Some[OF al] have pw: "is_pow2 align_T" and fit: "size_T * num \<le> total_size g"
    and d: "a - storage g < align_T" by auto
  have i0: "(a - storage g) div min_alloc g = 0" using d le by simp
  note ar = alloc_arith[OF ok sz fit]
  have "0 < align_T" using is_pow2_bounds[OF pw] by simp
  then have "(align_T - 1) div min_alloc g = 0" using le by simp
  then have step: "locations_step g align_T = 1" using step_arith(1)[OF ok pw] by simp
  from allocate_traced_scan[OF ok sz nb al i0] obtain i tr where
    post: "scan_post (inuse g) 1 ?N ?E 0 [] i tr" and
    eq: "allocate_traced g size_T align_T num =
        Some (Inr (if i \<ge> ?E
          then (None,
                g\<lparr>current_known_request_bound :=
                    min (current_known_request_bound g) (size_T * num - 1)\<rparr>, tr)
          else (Some (storage g + i * min_alloc g),
                g\<lparr>starts := (starts g)[i := True],
                   inuse := fill (inuse g) i (i + ?N) True,
                   current_known_request_bound :=
                     size_sub (current_known_request_bound g) (min_alloc g * ?N)\<rparr>, tr)))"
    unfolding step by blast
  have cE: "c < ?E" using c ar(3,4) by simp
  have occ: "\<forall>c'. c' < i \<and> c' < ?E \<longrightarrow> (\<exists>k<?N. inuse g ! (c' + k))"
    using post by (simp add: scan_post_def)
  have ic: "i \<le> c"
  proof (rule ccontr)
    assume "\<not> i \<le> c"
    then have "\<exists>k<?N. inuse g ! (c + k)" using occ cE by simp
    then show False using free by blast
  qed
  then have lt: "i < ?E" using cE by simp
  have fr: "\<forall>k<?N. \<not> inuse g ! (i + k)" using post lt by (simp add: scan_post_def)
  have mn: "\<forall>c'<i. \<exists>k<?N. inuse g ! (c' + k)" using occ lt by simp
  have "allocate_traced g size_T align_T num =
        Some (Inr (Some (storage g + i * min_alloc g),
                g\<lparr>starts := (starts g)[i := True],
                   inuse := fill (inuse g) i (i + ?N) True,
                   current_known_request_bound :=
                     size_sub (current_known_request_bound g) (min_alloc g * ?N)\<rparr>, tr))"
    using eq lt by simp
  with ic fr mn show ?thesis by blast
qed

subsection \<open>What a call of deallocate does\<close>

lemma deallocate_result:
  assumes ok: "page_ok g"
    and here: "here = size_sub pp (storage g) div min_alloc g"
    and valid: "here < locations g" "starts g ! here" "inuse g ! here"
  shows "\<exists>r e iu'.
     deallocate g (Some pp) =
       Inr (g\<lparr>starts := (starts g)[here := False], inuse := iu',
              current_known_request_bound :=
                max (current_known_request_bound g) ((r - here) * min_alloc g)\<rparr>) \<and>
     here < r \<and> r \<le> locations g \<and>
     (\<forall>m. here < m \<and> m < r \<longrightarrow> \<not> starts g ! m) \<and> (r < locations g \<longrightarrow> starts g ! r) \<and>
     here \<le> e \<and> e \<le> r \<and> length iu' = length (inuse g) \<and>
     (\<forall>k. here \<le> k \<and> k < e \<longrightarrow> inuse g ! k) \<and> (e < r \<longrightarrow> \<not> inuse g ! e) \<and>
     (\<forall>k<length (inuse g). iu' ! k = (if here \<le> k \<and> k < e then False else inuse g ! k))"
proof -
  let ?L = "locations g" and ?ma = "min_alloc g"
  let ?st' = "(starts g)[here := False]"
  have ma: "0 < ?ma" and T: "total_size g = ?L * ?ma" and small: "2 * total_size g < size_mod"
    and len: "?L \<le> length (inuse g)" "?L \<le> length (starts g)"
    using ok page_ok_total[OF ok] by (simp_all add: page_ok_def)
  have "?L \<le> ?L * ?ma" using ma by simp
  then have Ls: "?L < size_mod" using T small by linarith
  have h1: "size_add here 1 = here + 1" using valid(1) Ls by (simp add: size_add_eq)
  from find_next_result[of "here + 1" ?L ?st'] valid(1) len(2)
  obtain r where r: "find_next ?st' ?L (here + 1) = Inr r" "here + 1 \<le> r" "r \<le> ?L"
    "\<forall>m. here + 1 \<le> m \<and> m < r \<longrightarrow> \<not> ?st' ! m" "r < ?L \<longrightarrow> ?st' ! r"
    by auto
  have r4: "\<forall>m. here < m \<and> m < r \<longrightarrow> \<not> starts g ! m"
  proof (intro allI impI)
    fix m assume m: "here < m \<and> m < r"
    then have "\<not> ?st' ! m" using r(4) by simp
    then show "\<not> starts g ! m" using m by simp
  qed
  have r5: "r < ?L \<longrightarrow> starts g ! r" using r(2,5) by auto
  have sub: "size_sub r here = r - here" using r(2,3) Ls by (simp add: size_sub_eq)
  have "(r - here) * ?ma \<le> ?L * ?ma" using r(3) by (intro mult_le_mono1) simp
  then have "(r - here) * ?ma < size_mod" using T small by linarith
  then have mul: "size_mul (r - here) ?ma = (r - here) * ?ma" by (rule size_mul_eq)
  from clear_run_result[of here r "inuse g"] r(2,3) len(1)
  obtain e iu' where c: "clear_run (inuse g) r here = Inr iu'" "here \<le> e" "e \<le> r"
    "length iu' = length (inuse g)" "\<forall>k. here \<le> k \<and> k < e \<longrightarrow> inuse g ! k"
    "e < r \<longrightarrow> \<not> inuse g ! e"
    "\<forall>k<length (inuse g). iu' ! k = (if here \<le> k \<and> k < e then False else inuse g ! k)"
    by auto
  have hl: "here < length (starts g)" "here < length (inuse g)" using valid(1) len by simp_all
  have "deallocate g (Some pp) =
       Inr (g\<lparr>starts := ?st', inuse := iu',
              current_known_request_bound :=
                max (current_known_request_bound g) ((r - here) * ?ma)\<rparr>)"
    using valid hl h1 r(1) sub mul c(1) ma by (simp add: deallocate_def Let_def flip: here)
  with r(2,3) r4 r5 c(2-7) show ?thesis by (intro exI[of _ r] exI[of _ e] exI[of _ iu']) simp
qed

lemma is_next_start_unique:
  assumes "is_next_start st n here ns" "here < r" "r \<le> n"
    "\<forall>m. here < m \<and> m < r \<longrightarrow> \<not> st ! m" "r < n \<longrightarrow> st ! r"
  shows "r = ns"
proof (rule ccontr)
  assume ne: "r \<noteq> ns"
  have ns: "here < ns" "ns \<le> n" "\<forall>k. here < k \<and> k < ns \<longrightarrow> \<not> st ! k" "ns < n \<longrightarrow> st ! ns"
    using assms(1) by (simp_all add: is_next_start_def)
  show False
  proof (cases "r < ns")
    case True
    then have "st ! r" using assms(5) ns(2) by simp
    moreover have "\<not> st ! r" using ns(3) True assms(2) by simp
    ultimately show False by simp
  next
    case False
    then have lt: "ns < r" using ne by simp
    then have "st ! ns" using ns(4) assms(3) by simp
    moreover have "\<not> st ! ns" using assms(4) lt ns(1) by simp
    ultimately show False by simp
  qed
qed

subsection \<open>The invariant of the bitmaps\<close>

lemma bitmap_invI:
  assumes "\<And>i. i < locations g \<Longrightarrow> starts g ! i \<Longrightarrow> inuse g ! i"
    and "\<And>i. i < locations g \<Longrightarrow> inuse g ! i \<Longrightarrow> i = 0 \<or> \<not> inuse g ! (i - 1) \<Longrightarrow> starts g ! i"
  shows "bitmap_inv g"
  unfolding bitmap_inv_def using assms by blast

lemma bitmap_inv_runD:
  "bitmap_inv g \<Longrightarrow> i < locations g \<Longrightarrow> inuse g ! i \<Longrightarrow> i = 0 \<or> \<not> inuse g ! (i - 1) \<Longrightarrow>
   starts g ! i"
  unfolding bitmap_inv_def by blast

lemma page_ok_update:
  assumes "page_ok g" "length st = length (starts g)" "length iu = length (inuse g)"
  shows "page_ok (g\<lparr>starts := st, inuse := iu, current_known_request_bound := b\<rparr>)"
  using assms by (simp add: page_ok_def locations_def)

lemma page_ok_bound:
  "page_ok (g\<lparr>current_known_request_bound := b\<rparr>) = page_ok g"
  by (simp add: page_ok_def locations_def)

lemma bitmap_inv_bound:
  "bitmap_inv (g\<lparr>current_known_request_bound := b\<rparr>) = bitmap_inv g"
  by (simp add: bitmap_inv_def locations_def)

lemma gpage_new_inv:
  assumes new: "gpage_new base raw ts ma = Inr g" and small: "2 * total_size g < size_mod"
  shows "page_ok g \<and> bitmap_inv g"
proof -
  let ?t = "size_add ts (if ts mod ma > 0 then size_sub ma (ts mod ma) else 0)"
  have ma: "ma \<noteq> 0" using new by (cases "ma = 0") (simp_all add: gpage_new_def)
  have md: "?t mod ma = 0" using new ma by (cases "?t mod ma = 0") (simp_all add: gpage_new_def Let_def)
  have g: "g = \<lparr> total_size = ?t, min_alloc = ma, storage = base,
                  storage_bytes = new_bytes raw ?t,
                  inuse = replicate ?t False, starts = replicate ?t False,
                  current_known_request_bound = ?t \<rparr>"
    using new ma md by (simp add: gpage_new_def Let_def)
  have f: "total_size g = ?t" "min_alloc g = ma" "inuse g = replicate ?t False"
    "starts g = replicate ?t False"
    by (simp_all add: g)
  have le: "locations g \<le> ?t" unfolding locations_def f by (rule div_le_dividend)
  have "page_ok g" unfolding page_ok_def using ma md small le by (simp add: f)
  moreover have "bitmap_inv g"
  proof (rule bitmap_invI)
    fix i assume i: "i < locations g"
    then have "i < ?t" using le by simp
    then have n: "\<not> starts g ! i" "\<not> inuse g ! i" by (simp_all add: f)
    show "starts g ! i \<Longrightarrow> inuse g ! i" using n by simp
    show "inuse g ! i \<Longrightarrow> i = 0 \<or> \<not> inuse g ! (i - 1) \<Longrightarrow> starts g ! i" using n by simp
  qed
  ultimately show ?thesis by blast
qed

lemma allocate_inv:
  assumes ok: "page_ok g" and inv: "bitmap_inv g"
    and sz: "0 < size_T" "0 < num" "size_T * num < size_mod"
    and res: "allocate g size_T align_T num = Some (Inr (p, g'))"
  shows "page_ok g' \<and> bitmap_inv g'"
proof (cases p)
  case None
  from allocate_tracedI[OF res] obtain tr where
    "allocate_traced g size_T align_T num = Some (Inr (None, g', tr))" using None by blast
  from allocate_traced_NoneD[OF this]
  have "g' = g \<or>
         g' = g\<lparr>current_known_request_bound :=
                 min (current_known_request_bound g) (size_sub (bytes_needed size_T num) 1)\<rparr>" .
  then show ?thesis
    by (rule disjE) (simp_all add: ok inv page_ok_bound bitmap_inv_bound)
next
  case (Some a)
  let ?N = "locations_needed g size_T num" and ?ma = "min_alloc g"
  from allocate_tracedI[OF res] obtain tr where
    "allocate_traced g size_T align_T num = Some (Inr (Some a, g', tr))" using Some by blast
  from allocate_traced_success[OF ok sz this] obtain i where
    iN: "i + ?N \<le> locations g" and q: "(size_T * num - 1) div ?ma < ?N" and
    free: "\<forall>k<?N. \<not> inuse g ! (i + k)" and
    g': "g' = g\<lparr>starts := (starts g)[i := True],
                  inuse := fill (inuse g) i (i + ?N) True,
                  current_known_request_bound :=
                    size_sub (current_known_request_bound g) (?ma * ?N)\<rparr>"
    by blast
  have Npos: "0 < ?N" using q by simp
  have len: "locations g \<le> length (inuse g)" "locations g \<le> length (starts g)"
    using ok by (simp_all add: page_ok_def)
  have L: "locations g' = locations g" by (simp add: g' locations_def)
  have il: "i < length (starts g)" using iN Npos len by simp
  have st: "starts g' ! m = (m = i \<or> starts g ! m)" if "m < locations g" for m
  proof -
    have "starts g' ! m = (if i = m then True else starts g ! m)"
      using il by (simp add: g' nth_list_update)
    then show ?thesis by auto
  qed
  have iu: "inuse g' ! m = ((i \<le> m \<and> m < i + ?N) \<or> inuse g ! m)" if "m < locations g" for m
  proof -
    have "m < length (inuse g)" using that len by simp
    then have "inuse g' ! m = (if i \<le> m \<and> m < i + ?N then True else inuse g ! m)"
      by (simp add: g' nth_fill)
    then show ?thesis by auto
  qed
  have pk: "page_ok g'" unfolding g' using ok by (intro page_ok_update) simp_all
  have "bitmap_inv g'"
  proof (rule bitmap_invI)
    fix m assume m: "m < locations g'" and s: "starts g' ! m"
    show "inuse g' ! m"
    proof (cases "m = i")
      case True
      then show ?thesis using iu[of m] m L Npos by simp
    next
      case False
      then have "starts g ! m" using st[of m] m L s by simp
      then have "inuse g ! m" using bitmap_inv_startsD[OF inv] m L by simp
      then show ?thesis using iu[of m] m L by simp
    qed
  next
    fix m assume m: "m < locations g'" and u: "inuse g' ! m"
      and f: "m = 0 \<or> \<not> inuse g' ! (m - 1)"
    have ml: "m < locations g" using m L by simp
    show "starts g' ! m"
    proof (cases "i \<le> m \<and> m < i + ?N")
      case True
      have "m = i"
      proof (rule ccontr)
        assume "m \<noteq> i"
        then have "i \<le> m - 1 \<and> m - 1 < i + ?N" "m - 1 < locations g" "m \<noteq> 0"
          using True ml by auto
        then have "inuse g' ! (m - 1)" using iu[of "m - 1"] by simp
        with f \<open>m \<noteq> 0\<close> show False by simp
      qed
      then show ?thesis using st[of m] ml by simp
    next
      case False
      then have um: "inuse g ! m" using iu[of m] ml u by blast
      have "m = 0 \<or> \<not> inuse g ! (m - 1)"
      proof (cases "m = 0")
        case True then show ?thesis by simp
      next
        case False
        then have "m - 1 < locations g" using ml by simp
        then show ?thesis using iu[of "m - 1"] f False by auto
      qed
      then have "starts g ! m" using bitmap_inv_runD[OF inv ml um] by simp
      then show ?thesis using st[of m] ml by simp
    qed
  qed
  with pk show ?thesis by blast
qed

lemma deallocate_inv:
  assumes ok: "page_ok g" and inv: "bitmap_inv g"
    and res: "deallocate g q = Inr g'"
  shows "page_ok g' \<and> bitmap_inv g'"
proof (cases q)
  case None
  then have "g' = g" using res by (simp add: deallocate_def)
  then show ?thesis using ok inv by simp
next
  case (Some pp)
  define here where "here = size_sub pp (storage g) div min_alloc g"
  have valid: "here < locations g" "starts g ! here" "inuse g ! here"
    using res unfolding Some deallocate_def Let_def here_def
    by (simp_all split: if_splits)
  from deallocate_result[OF ok here_def valid] obtain r e iu' where
    d: "deallocate g (Some pp) =
       Inr (g\<lparr>starts := (starts g)[here := False], inuse := iu',
              current_known_request_bound :=
                max (current_known_request_bound g) ((r - here) * min_alloc g)\<rparr>)"
    and r: "here < r" "r \<le> locations g" "\<forall>m. here < m \<and> m < r \<longrightarrow> \<not> starts g ! m"
      "r < locations g \<longrightarrow> starts g ! r"
    and e: "here \<le> e" "e \<le> r" "length iu' = length (inuse g)"
      "\<forall>k. here \<le> k \<and> k < e \<longrightarrow> inuse g ! k" "e < r \<longrightarrow> \<not> inuse g ! e"
      "\<forall>k<length (inuse g). iu' ! k = (if here \<le> k \<and> k < e then False else inuse g ! k)"
    by blast
  have g': "g' = g\<lparr>starts := (starts g)[here := False], inuse := iu',
              current_known_request_bound :=
                max (current_known_request_bound g) ((r - here) * min_alloc g)\<rparr>"
    using d res Some by simp
  have len: "locations g \<le> length (inuse g)" "locations g \<le> length (starts g)"
    using ok by (simp_all add: page_ok_def)
  have L: "locations g' = locations g" by (simp add: g' locations_def)
  have hl: "here < length (starts g)" using valid(1) len by simp
  have st: "starts g' ! m = (m \<noteq> here \<and> starts g ! m)" for m
  proof -
    have "starts g' ! m = (if here = m then False else starts g ! m)"
      using hl by (simp add: g' nth_list_update)
    then show ?thesis by auto
  qed
  have iu: "inuse g' ! m = (\<not> (here \<le> m \<and> m < e) \<and> inuse g ! m)" if "m < locations g" for m
  proof -
    have "m < length (inuse g)" using that len by simp
    then have "inuse g' ! m = (if here \<le> m \<and> m < e then False else inuse g ! m)"
      using e(6) by (simp add: g')
    then show ?thesis by auto
  qed
  have pk: "page_ok g'" unfolding g' using ok e(3) by (intro page_ok_update) simp_all
  have "bitmap_inv g'"
  proof (rule bitmap_invI)
    fix m assume m: "m < locations g'" and s: "starts g' ! m"
    have ml: "m < locations g" using m L by simp
    have sm: "m \<noteq> here" "starts g ! m" using s st[of m] by simp_all
    have um: "inuse g ! m" using bitmap_inv_startsD[OF inv ml sm(2)] .
    have "\<not> (here \<le> m \<and> m < e)"
    proof
      assume a: "here \<le> m \<and> m < e"
      then have "here < m \<and> m < r" using sm(1) e(2) by simp
      then show False using r(3) sm(2) by blast
    qed
    then show "inuse g' ! m" using iu[OF ml] um by simp
  next
    fix m assume m: "m < locations g'" and u: "inuse g' ! m"
      and f: "m = 0 \<or> \<not> inuse g' ! (m - 1)"
    have ml: "m < locations g" using m L by simp
    have um: "\<not> (here \<le> m \<and> m < e)" "inuse g ! m" using iu[OF ml] u by simp_all
    have ne: "m \<noteq> here"
    proof
      assume "m = here"
      then have "e = here" using um(1) e(1) by simp
      then have "\<not> inuse g ! here" using e(5) r(1) by simp
      then show False using valid(3) by simp
    qed
    have "starts g ! m"
    proof (cases "m = 0 \<or> \<not> inuse g ! (m - 1)")
      case True
      then show ?thesis using bitmap_inv_runD[OF inv ml um(2)] by simp
    next
      case False
      then have m0: "m \<noteq> 0" and prev: "inuse g ! (m - 1)" by simp_all
      have "m - 1 < locations g" using ml by simp
      then have "here \<le> m - 1 \<and> m - 1 < e" using iu[of "m - 1"] f m0 prev by simp
      then have "m = e" using um(1) m0 by linarith
      then have "\<not> e < r" using e(5) um(2) by blast
      then have "m = r" using e(2) \<open>m = e\<close> by simp
      then show ?thesis using r(4) ml by simp
    qed
    then show "starts g' ! m" using st[of m] ne by simp
  qed
  with pk show ?thesis by blast
qed

subsection \<open>The last byte of the storage\<close>

text \<open>
  The range test of \<open>contains\<close> (line 200) compares with the address of the last byte
  and uses \<open><\<close>, so that byte is reported as \<open>not_in_range\<close> even when it is
  allocated: here a 16-byte object fills the example page.
\<close>

lemma find_start_numeral:
  "find_start st (numeral k) =
     (if pred_numeral k < length st
      then (if \<not> st ! pred_numeral k then find_start st (pred_numeral k) else Inr (numeral k))
      else Inl OutOfBounds)"
  by (simp add: numeral_eq_Suc)

lemma find_start_1:
  "find_start st 1 =
     (if 0 < length st then (if \<not> st ! 0 then Inr 0 else Inr 1) else Inl OutOfBounds)"
  by simp

lemma contains_last_byte:
  "\<exists>g'. allocate page16 16 1 1 = Some (Inr (Some 4096, g')) \<and>
        contains g' (Some (4096 + 14)) =
          Inr \<lparr>found = in_range_allocated_middle, location = 3, start_location = 0\<rparr> \<and>
        contains g' (Some (4096 + 15)) =
          Inr \<lparr>found = not_in_range, location = 0, start_location = 0\<rparr>"
  by (simp add: page16_defs eval_defs find_start_numeral find_start_1 del: One_nat_def)

section \<open>The claims\<close>

text \<open>
  C1, as the code has it. Let \<open>allocate\<close> return the pointer \<open>p\<close> for \<open>num\<close> objects
  of \<open>size_T\<close> bytes on a reachable page, and let \<open>k\<close> be a byte offset below
  \<open>size_T * num\<close> such that \<open>p + k\<close> is not the last byte of the storage. Then
  \<open>contains(p + k)\<close> reports the location of \<open>p\<close> plus \<open>k div min_alloc\<close>; it reports
  \<open>in_range_allocated_start\<close> while \<open>p + k\<close> lies in the location of \<open>p\<close> (that is for
  \<open>k < min_alloc\<close>, and so for \<open>k = 0\<close>) and \<open>in_range_allocated_middle\<close> with the
  location of \<open>p\<close> as \<open>start_location\<close> for every later offset.
\<close>

theorem allocate_then_contains:
  assumes ok: "page_ok g" and inv: "bitmap_inv g"
    and sz: "0 < size_T" "0 < num" "size_T * num < size_mod"
    and res: "allocate g size_T align_T num = Some (Inr (Some p, g'))"
    and k: "k < size_T * num" and notlast: "p + k + 1 < storage g + total_size g"
  shows "contains g' (Some (p + k)) =
     Inr \<lparr>found = (if k < min_alloc g then in_range_allocated_start
                    else in_range_allocated_middle),
          location = (p - storage g) div min_alloc g + k div min_alloc g,
          start_location = (p - storage g) div min_alloc g\<rparr>"
proof -
  let ?N = "locations_needed g size_T num" and ?ma = "min_alloc g"
  from allocate_tracedI[OF res] obtain tr where
    "allocate_traced g size_T align_T num = Some (Inr (Some p, g', tr))" by blast
  from allocate_traced_success[OF ok sz this] obtain i where
    iN: "i + ?N \<le> locations g" and q: "(size_T * num - 1) div ?ma < ?N" and
    p: "p = storage g + i * ?ma" and free: "\<forall>k<?N. \<not> inuse g ! (i + k)" and
    g': "g' = g\<lparr>starts := (starts g)[i := True],
                  inuse := fill (inuse g) i (i + ?N) True,
                  current_known_request_bound :=
                    size_sub (current_known_request_bound g) (?ma * ?N)\<rparr>"
    by blast
  have ma: "0 < ?ma" and len: "locations g \<le> length (inuse g)" "locations g \<le> length (starts g)"
    using ok by (simp_all add: page_ok_def)
  define w where "w = i + k div ?ma"
  have "k div ?ma \<le> (size_T * num - 1) div ?ma" using k by (intro div_le_mono) simp
  then have kd: "k div ?ma < ?N" using q by simp
  then have wN: "w < i + ?N" by (simp add: w_def)
  have whr: "(p + k - storage g) div ?ma = w" unfolding p w_def using ma by (rule slot_of_offset)
  have pslot: "(p - storage g) div ?ma = i" unfolding p using ma by simp
  have rng: "storage g \<le> p + k \<and> p + k < storage g + total_size g - 1"
    using p notlast by simp
  have wl: "w < length (inuse g)" "w < length (starts g)" using wN iN len by simp_all
  have iu: "inuse g' ! w" using wl wN by (simp add: g' nth_fill w_def)
  show ?thesis
  proof (cases "k < ?ma")
    case True
    then have "w = i" by (simp add: w_def)
    then have "starts g' ! w" using wl by (simp add: g')
    then show ?thesis
      using rng whr wl iu True pslot \<open>w = i\<close> ma
      by (simp add: contains_def address_of_def g')
  next
    case False
    then have "1 \<le> k div ?ma" using ma by (simp add: Suc_le_eq div_greater_zero_iff)
    then have iw: "i < w" by (simp add: w_def)
    have nost: "\<not> starts g ! m" if "i < m" "m \<le> w" for m
    proof -
      have "m - i < ?N" "i + (m - i) = m" using that wN by simp_all
      then have "\<not> inuse g ! m" using free by metis
      moreover have "m < locations g" using that wN iN by simp
      ultimately show ?thesis using bitmap_inv_startsD[OF inv] by blast
    qed
    have sw: "\<not> starts g' ! w" using nost[of w] iw by (simp add: g')
    have "find_start (starts g') w = Inr (Suc i)"
    proof (rule find_start_result)
      show "i < w" by (rule iw)
      show "w \<le> length (starts g')" using wl by (simp add: g')
      show "starts g' ! i" using iw wl by (simp add: g')
      show "\<forall>m. i < m \<and> m < w \<longrightarrow> \<not> starts g' ! m" using nost by (simp add: g')
    qed
    then show ?thesis
      using rng whr wl iu sw False pslot ma
      by (simp add: contains_def address_of_def g' w_def)
  qed
qed

theorem allocate_then_contains_witness:
  "page_ok page16 \<and> bitmap_inv page16 \<and>
   allocate page16 8 1 1 = Some (Inr (Some 4096, page16_a)) \<and>
   contains page16_a (Some (4096 + 5)) =
     Inr \<lparr>found = in_range_allocated_middle, location = 1, start_location = 0\<rparr>"
proof -
  have ok: "page_ok page16"
    by (simp add: page_ok_def page16_def locations_def size_mod_def)
  have inv: "bitmap_inv page16"
    by (simp add: bitmap_inv_def page16_def locations_def)
  have al: "allocate page16 8 1 1 = Some (Inr (Some 4096, page16_a))"
    by (simp add: page16_defs eval_defs)
  have "contains page16_a (Some (4096 + 5)) =
     Inr \<lparr>found = (if (5::nat) < min_alloc page16 then in_range_allocated_start
                    else in_range_allocated_middle),
          location = (4096 - storage page16) div min_alloc page16 + 5 div min_alloc page16,
          start_location = (4096 - storage page16) div min_alloc page16\<rparr>"
    by (rule allocate_then_contains[OF ok inv _ _ _ al]) (simp_all add: page16_def size_mod_def)
  then show ?thesis using ok inv al by (simp add: page16_def)
qed

text \<open>
  C1 as stated fails for an offset inside the first location: after \<open>allocate\<close> of one
  8-byte object on the example page, \<open>contains(p + 1)\<close> reports
  \<open>in_range_allocated_start\<close>, not \<open>in_range_allocated_middle\<close>.
\<close>

theorem contains_first_location_counterexample:
  "gpage_new 4096 zero_bytes 16 4 = Inr page16 \<and>
   allocate page16 8 1 1 = Some (Inr (Some 4096, page16_a)) \<and>
   contains page16_a (Some (4096 + 1)) =
     Inr \<lparr>found = in_range_allocated_start, location = 0, start_location = 0\<rparr>"
  by (simp add: page16_defs eval_defs)

text \<open>
  C2 fails on the code. \<open>allocate\<close> steps over the candidates in units of
  \<open>locations_step\<close>, but on a location in use at offset \<open>j\<close> it first adds \<open>j\<close> to \<open>i\<close>
  (line 165), which leaves the grid of aligned candidates. On a page of 32 bytes in
  locations of 4 bytes whose storage is at the 8-aligned address 4096: two \<open>char\<close>
  allocations take locations 0 and 1, the first is released, and an allocation of one
  8-byte object with alignment 8 probes locations 0 and 1, moves to location 3 and
  returns address 4108, which is not a multiple of 8.
\<close>

theorem allocate_misaligned:
  "\<exists>g0 g1 g2 g3 g4.
     gpage_new 4096 raw 32 4 = Inr g0 \<and>
     allocate g0 1 1 1 = Some (Inr (Some 4096, g1)) \<and>
     allocate g1 1 1 1 = Some (Inr (Some 4100, g2)) \<and>
     deallocate g2 (Some 4096) = Inr g3 \<and>
     allocate g3 8 8 1 = Some (Inr (Some 4108, g4)) \<and>
     storage g3 mod 8 = 0 \<and> (4108::nat) mod 8 = 4"
  by (simp add: eval_defs)

text \<open>
  C3, as the code has it. On a reachable page, for a request that passes the bound
  cache (\<open>bytes_needed\<close> at most \<open>current_known_request_bound\<close>), for which \<open>std::align\<close>
  succeeds and whose alignment is at most \<open>min_alloc\<close> (so that \<open>locations_step\<close> is 1
  and every location is a candidate): if the \<open>locations_needed\<close> locations from some
  location \<open>c\<close> on are free, \<open>allocate\<close> succeeds and returns the lowest location with
  that property. For every request, whatever \<open>allocate\<close> returns, the bitmap indices it
  read grow strictly: no location is probed twice.
\<close>

theorem allocate_first_fit:
  assumes ok: "page_ok g" and sz: "0 < size_T" "0 < num" "size_T * num < size_mod"
  shows "(size_T * num \<le> current_known_request_bound g \<and>
          std_align align_T (size_T * num) (storage g) (total_size g) = Inr (Some a) \<and>
          align_T \<le> min_alloc g \<and>
          c + locations_needed g size_T num \<le> locations g \<and>
          (\<forall>k<locations_needed g size_T num. \<not> inuse g ! (c + k)) \<longrightarrow>
          (\<exists>i g' tr.
             allocate_traced g size_T align_T num =
               Some (Inr (Some (storage g + i * min_alloc g), g', tr)) \<and>
             i \<le> c \<and> (\<forall>k<locations_needed g size_T num. \<not> inuse g ! (i + k)) \<and>
             (\<forall>c'<i. \<exists>k<locations_needed g size_T num. inuse g ! (c' + k)))) \<and>
         (\<forall>r g' tr. allocate_traced g size_T align_T num = Some (Inr (r, g', tr)) \<longrightarrow>
             sorted_wrt (<) tr \<and> distinct tr)"
proof (intro conjI impI allI)
  assume h: "size_T * num \<le> current_known_request_bound g \<and>
          std_align align_T (size_T * num) (storage g) (total_size g) = Inr (Some a) \<and>
          align_T \<le> min_alloc g \<and>
          c + locations_needed g size_T num \<le> locations g \<and>
          (\<forall>k<locations_needed g size_T num. \<not> inuse g ! (c + k))"
  then show "\<exists>i g' tr.
             allocate_traced g size_T align_T num =
               Some (Inr (Some (storage g + i * min_alloc g), g', tr)) \<and>
             i \<le> c \<and> (\<forall>k<locations_needed g size_T num. \<not> inuse g ! (i + k)) \<and>
             (\<forall>c'<i. \<exists>k<locations_needed g size_T num. inuse g ! (c' + k))"
    using allocate_traced_first_fit[OF ok sz, of align_T a c] by blast
next
  fix r g' tr
  assume "allocate_traced g size_T align_T num = Some (Inr (r, g', tr))"
  from allocate_traced_sorted[OF ok sz this] show "sorted_wrt (<) tr" .
  then show "distinct tr" by (simp add: strict_sorted_iff)
qed

theorem allocate_first_fit_witness:
  "page_ok page16_a \<and> (5::nat) * 1 \<le> current_known_request_bound page16_a \<and>
   std_align 1 (5 * 1) (storage page16_a) (total_size page16_a) = Inr (Some 4096) \<and>
   2 + locations_needed page16_a 5 1 \<le> locations page16_a \<and>
   (\<exists>i g' tr.
      allocate_traced page16_a 5 1 1 =
        Some (Inr (Some (storage page16_a + i * min_alloc page16_a), g', tr)) \<and> i \<le> 2 \<and>
      sorted_wrt (<) tr \<and> distinct tr)"
proof -
  have ok: "page_ok page16_a"
    by (simp add: page_ok_def page16_defs locations_def size_mod_def)
  have N: "locations_needed page16_a 5 1 = 2"
    by (simp add: page16_defs eval_defs)
  have h: "(5::nat) * 1 \<le> current_known_request_bound page16_a \<and>
          std_align 1 (5 * 1) (storage page16_a) (total_size page16_a) = Inr (Some 4096) \<and>
          (1::nat) \<le> min_alloc page16_a \<and>
          2 + locations_needed page16_a 5 1 \<le> locations page16_a \<and>
          (\<forall>k<locations_needed page16_a 5 1. \<not> inuse page16_a ! (2 + k))"
    unfolding N by (simp add: page16_defs eval_defs less_Suc_eq numeral_2_eq_2)
  have t: "0 < (5::nat)" "0 < (1::nat)" "(5::nat) * 1 < size_mod" by (simp_all add: size_mod_def)
  note ff = allocate_first_fit[OF ok t, of 1 4096 2]
  from ff h obtain i g' tr where
    r: "allocate_traced page16_a 5 1 1 =
        Some (Inr (Some (storage page16_a + i * min_alloc page16_a), g', tr))" "i \<le> 2"
    by blast
  from ff r(1) have "sorted_wrt (<) tr \<and> distinct tr" by blast
  with r ok h N show ?thesis by auto
qed

text \<open>
  C3 as stated fails: a free run is no guarantee of success. After the 8-byte
  allocation and the failed request for two 3-byte objects the bound cache is 5, and a
  request for one 6-byte object is turned away by the test of line 133 although
  locations 2 and 3, the two locations it needs, are free.
\<close>

theorem fast_reject_with_free_run_counterexample:
  "allocate page16 8 1 1 = Some (Inr (Some 4096, page16_a)) \<and>
   allocate page16_a 3 1 2 = Some (Inr (None, page16_b)) \<and>
   locations_step page16_b 1 = 1 \<and> locations_needed page16_b 6 1 = 2 \<and>
   2 + locations_needed page16_b 6 1 \<le> locations page16_b \<and>
   \<not> inuse page16_b ! (2 + 0) \<and> \<not> inuse page16_b ! (2 + 1) \<and>
   allocate page16_b 6 1 1 = Some (Inr (None, page16_b))"
  by (simp add: page16_defs eval_defs del: One_nat_def)

text \<open>
  C4 fails on the code. Line 187 subtracts \<open>min_alloc * locations_needed\<close>, the size of
  the request rounded up to whole locations, from a bound that line 133 only compared
  with \<open>bytes_needed\<close>, and the subtraction wraps around. On the example page the
  three calls of \<open>allocate\<close> leave \<open>current_known_request_bound = 2 ^ 64 - 3\<close> on a page
  of 16 bytes.
\<close>

theorem bound_cache_wraps:
  "gpage_new 4096 zero_bytes 16 4 = Inr page16 \<and>
   allocate page16 8 1 1 = Some (Inr (Some 4096, page16_a)) \<and>
   allocate page16_a 3 1 2 = Some (Inr (None, page16_b)) \<and>
   allocate page16_b 5 1 1 = Some (Inr (Some 4104, page16_c)) \<and>
   total_size page16_c = 16 \<and>
   current_known_request_bound page16_c = 18446744073709551613"
  by (simp add: page16_defs eval_defs del: One_nat_def)

text \<open>
  C5. When \<open>bytes_needed = sizeof(T) * num\<close> (as \<open>std::size_t\<close>) is greater than
  \<open>current_known_request_bound\<close>, \<open>allocate\<close> returns the null pointer, leaves the page
  as it is and reads no bitmap index.
\<close>

theorem allocate_fast_reject:
  assumes "current_known_request_bound g < bytes_needed size_T num"
  shows "allocate_traced g size_T align_T num = Some (Inr (None, g, [])) \<and>
         allocate g size_T align_T num = Some (Inr (None, g))"
  using assms by (simp add: allocate_def allocate_traced_def)

theorem allocate_fast_reject_witness:
  "current_known_request_bound page16_b < bytes_needed 6 1 \<and>
   allocate_traced page16_b 6 1 1 = Some (Inr (None, page16_b, [])) \<and>
   allocate page16_b 6 1 1 = Some (Inr (None, page16_b))"
proof -
  have h: "current_known_request_bound page16_b < bytes_needed 6 1"
    by (simp add: page16_defs bytes_needed_def size_mul_def size_mod_def)
  from allocate_fast_reject[OF h, of 1] h show ?thesis by simp
qed

text \<open>
  C6. Let \<open>pp\<close> point into location \<open>here\<close> of a reachable page, let \<open>here\<close> be the start
  of an allocation and in use, and let \<open>ns\<close> be the nearest location after \<open>here\<close> that
  starts an allocation, or the number of locations if there is none. Then
  \<open>deallocate\<close> succeeds and sets \<open>current_known_request_bound\<close> to the maximum of its
  old value and \<open>(ns - here) * min_alloc\<close>. In the witness the released allocation has
  one location and is followed by a free location, and the bound becomes the 8 bytes
  of both.
\<close>

theorem deallocate_relaxes_bound:
  assumes ok: "page_ok g"
    and ptr: "storage g \<le> pp" "pp < size_mod"
    and here: "here = (pp - storage g) div min_alloc g"
    and valid: "here < locations g" "starts g ! here" "inuse g ! here"
    and ns: "is_next_start (starts g) (locations g) here ns"
  shows "\<exists>g'. deallocate g (Some pp) = Inr g' \<and>
           current_known_request_bound g' =
             max (current_known_request_bound g) ((ns - here) * min_alloc g)"
proof -
  have h: "here = size_sub pp (storage g) div min_alloc g"
    using ptr here by (simp add: size_sub_eq)
  from deallocate_result[OF ok h valid] obtain r e iu' where
    d: "deallocate g (Some pp) =
       Inr (g\<lparr>starts := (starts g)[here := False], inuse := iu',
              current_known_request_bound :=
                max (current_known_request_bound g) ((r - here) * min_alloc g)\<rparr>)"
    and r: "here < r" "r \<le> locations g" "\<forall>m. here < m \<and> m < r \<longrightarrow> \<not> starts g ! m"
      "r < locations g \<longrightarrow> starts g ! r"
    by blast
  have "r = ns" using ns r by (rule is_next_start_unique)
  with d show ?thesis by simp
qed

theorem deallocate_relaxes_bound_witness:
  "page_ok page16_gap \<and> is_next_start (starts page16_gap) (locations page16_gap) 1 3 \<and>
   (\<exists>g'. deallocate page16_gap (Some 4100) = Inr g' \<and> current_known_request_bound g' = 8)"
proof -
  have ok: "page_ok page16_gap"
    by (simp add: page_ok_def page16_gap_def locations_def size_mod_def)
  have L: "locations page16_gap = 4" by (simp add: page16_gap_def locations_def)
  have "{1<..<3} = {2::nat}" by auto
  then have ns: "is_next_start (starts page16_gap) (locations page16_gap) 1 3"
    unfolding L is_next_start_def by (simp add: page16_gap_def)
  have "\<exists>g'. deallocate page16_gap (Some 4100) = Inr g' \<and>
           current_known_request_bound g' =
             max (current_known_request_bound page16_gap) ((3 - 1) * min_alloc page16_gap)"
    by (rule deallocate_relaxes_bound[OF ok _ _ _ _ _ _ ns])
       (simp_all add: page16_gap_def locations_def size_mod_def)
  then show ?thesis using ok ns by (simp add: page16_gap_def)
qed

text \<open>
  C7, as the code has it. The invariant \<open>bitmap_inv\<close> (every start is in use, and every
  maximal run of locations in use begins with a start) holds for a new page and is
  kept, together with \<open>page_ok\<close>, by every call of \<open>allocate\<close> for at least one object
  whose byte count fits \<open>std::size_t\<close>, and by every call of \<open>deallocate\<close> that passes
  its assertions. A run may hold several starts, one for each allocation in it.
\<close>

theorem bitmap_inv_reachable:
  "(gpage_new base raw ts ma = Inr g0 \<and> 2 * total_size g0 < size_mod \<longrightarrow>
      page_ok g0 \<and> bitmap_inv g0) \<and>
   (page_ok g \<and> bitmap_inv g \<and> 0 < size_T \<and> 0 < num \<and> size_T * num < size_mod \<and>
    allocate g size_T align_T num = Some (Inr (p, g')) \<longrightarrow>
      page_ok g' \<and> bitmap_inv g') \<and>
   (page_ok g \<and> bitmap_inv g \<and> deallocate g q = Inr g'' \<longrightarrow>
      page_ok g'' \<and> bitmap_inv g'')"
  using gpage_new_inv allocate_inv deallocate_inv by blast

theorem bitmap_inv_reachable_witness:
  "gpage_new 4096 zero_bytes 16 4 = Inr page16 \<and> 2 * total_size page16 < size_mod \<and>
   page_ok page16 \<and> bitmap_inv page16 \<and>
   allocate page16 8 1 1 = Some (Inr (Some 4096, page16_a)) \<and>
   page_ok page16_a \<and> bitmap_inv page16_a \<and>
   deallocate page16_a (Some 4096) = Inr page16_d \<and>
   page_ok page16_d \<and> bitmap_inv page16_d"
proof -
  have n: "gpage_new 4096 zero_bytes 16 4 = Inr page16"
    by (simp add: page16_defs eval_defs)
  have s: "2 * total_size page16 < size_mod" by (simp add: page16_def size_mod_def)
  have a: "allocate page16 8 1 1 = Some (Inr (Some 4096, page16_a))"
    by (simp add: page16_defs eval_defs)
  have d: "deallocate page16_a (Some 4096) = Inr page16_d"
    by (simp add: page16_defs page16_d_def eval_defs size_sub_self del: One_nat_def)
  have i0: "page_ok page16 \<and> bitmap_inv page16"
    using bitmap_inv_reachable[where base = 4096 and raw = zero_bytes and ts = 16 and ma = 4
      and ?g0.0 = page16] n s by blast
  have i1: "page_ok page16_a \<and> bitmap_inv page16_a"
    using bitmap_inv_reachable[where g = page16 and size_T = 8 and num = 1 and align_T = 1
      and p = "Some 4096" and g' = page16_a] i0 a by (simp add: size_mod_def)
  have i2: "page_ok page16_d \<and> bitmap_inv page16_d"
    using bitmap_inv_reachable[where g = page16_a and q = "Some 4096" and g'' = page16_d] i1 d
    by blast
  from n s a d i0 i1 i2 show ?thesis by blast
qed

text \<open>
  C7 as stated fails: allocations that lie next to each other form one maximal run
  with one start each. On \<open>page16_c\<close> the run of locations 0 to 3 has starts at 0 and
  at 2.
\<close>

theorem adjacent_allocations_counterexample:
  "allocate page16 8 1 1 = Some (Inr (Some 4096, page16_a)) \<and>
   allocate page16_a 3 1 2 = Some (Inr (None, page16_b)) \<and>
   allocate page16_b 5 1 1 = Some (Inr (Some 4104, page16_c)) \<and>
   \<not> claimed_run_invariant page16_c"
proof -
  have a: "allocate page16 8 1 1 = Some (Inr (Some 4096, page16_a)) \<and>
   allocate page16_a 3 1 2 = Some (Inr (None, page16_b)) \<and>
   allocate page16_b 5 1 1 = Some (Inr (Some 4104, page16_c))"
    by (simp add: page16_defs eval_defs del: One_nat_def)
  have L: "locations page16_c = 4" by (simp add: page16_defs locations_def)
  have iu: "\<forall>k \<in> {0..<4}. inuse page16_c ! k"
  proof
    fix k :: nat assume "k \<in> {0..<4}"
    then have "k = 0 \<or> k = 1 \<or> k = 2 \<or> k = 3" by auto
    then show "inuse page16_c ! k"
      by (elim disjE) (simp_all add: page16_defs fill.simps)
  qed
  have run: "maximal_run (inuse page16_c) (locations page16_c) 0 4"
    unfolding maximal_run_def L using iu by simp
  have s2: "starts page16_c ! 2" by (simp add: page16_defs)
  have neg: "\<not> claimed_run_invariant page16_c"
  proof
    assume c: "claimed_run_invariant page16_c"
    have "(0::nat) \<in> {..<4}" "(4::nat) \<in> {..4}" by simp_all
    with c run have "\<forall>k \<in> {0<..<4}. \<not> starts page16_c ! k"
      unfolding claimed_run_invariant_def L by blast
    then have "\<not> starts page16_c ! 2" by simp
    then show False using s2 by simp
  qed
  from a neg show ?thesis by blast
qed

text \<open>
  C8. On a new page of 1024 bytes in locations of 4 bytes, at any address \<open>base\<close>:
  \<open>allocate\<close> of one 8-byte object with alignment 4 returns \<open>base + 0\<close> and takes
  locations 0 and 1; \<open>allocate\<close> of 10 objects of 4 bytes with alignment 4 needs 11
  locations, returns \<open>base + 8\<close> and takes locations 2 to 12, with the start at
  location 2; after \<open>deallocate\<close> of the first pointer, \<open>contains\<close> reports
  \<open>in_range_unallocated\<close> for it.
\<close>

theorem scenario_1024:
  "\<exists>g0 g1 g2 g3.
     gpage_new base raw 1024 4 = Inr g0 \<and> storage g0 = base \<and>
     allocate g0 8 4 1 = Some (Inr (Some (base + 0), g1)) \<and>
     inuse g1 = fill (replicate 1024 False) 0 2 True \<and>
     starts g1 = (replicate 1024 False)[0 := True] \<and>
     locations_needed g1 4 10 = 11 \<and>
     allocate g1 4 4 10 = Some (Inr (Some (base + 8), g2)) \<and>
     inuse g2 = fill (inuse g1) 2 (2 + 11) True \<and>
     starts g2 = (starts g1)[2 := True] \<and>
     deallocate g2 (Some (base + 0)) = Inr g3 \<and>
     contains g3 (Some (base + 0)) =
       Inr \<lparr>found = in_range_unallocated, location = 0, start_location = 0\<rparr>"
  by (simp add: eval_defs_small_align allocate_traced_small_align size_sub_small del: One_nat_def)

text \<open>
  C9 fails on the code. The constructor gives both bitmaps \<open>total_size\<close> entries
  (lines 117 and 118), one for each byte, not one for each location: for
  \<open>gpage(1024, 4)\<close> they have 1024 entries and \<open>locations()\<close> is 256.
\<close>

theorem bitmaps_have_total_size_entries:
  "\<exists>g. gpage_new base raw 1024 4 = Inr g \<and> locations g = 256 \<and>
       length (inuse g) = 1024 \<and> length (starts g) = 1024"
  by (simp add: gpage_new_def size_add_def size_mod_def locations_def)

text \<open>
  C10. When \<open>allocate\<close> returns the null pointer, the two bitmaps, the storage (its
  address and its bytes), \<open>total_size\<close> and \<open>min_alloc\<close> are as before the call, and
  \<open>current_known_request_bound\<close> has not grown.
\<close>

theorem allocate_failure_frame:
  assumes "allocate g size_T align_T num = Some (Inr (None, g'))"
  shows "inuse g' = inuse g \<and> starts g' = starts g \<and> storage_bytes g' = storage_bytes g \<and>
         storage g' = storage g \<and> total_size g' = total_size g \<and> min_alloc g' = min_alloc g \<and>
         current_known_request_bound g' \<le> current_known_request_bound g"
proof -
  from allocate_tracedI[OF assms] obtain tr where
    "allocate_traced g size_T align_T num = Some (Inr (None, g', tr))" by blast
  from allocate_traced_NoneD[OF this] show ?thesis by auto
qed

theorem allocate_failure_frame_witness:
  "allocate page16_a 3 1 2 = Some (Inr (None, page16_b)) \<and>
   inuse page16_b = inuse page16_a \<and> starts page16_b = starts page16_a \<and>
   storage_bytes page16_b = storage_bytes page16_a \<and>
   current_known_request_bound page16_b = 5 \<and> current_known_request_bound page16_a = 8"
proof -
  have h: "allocate page16_a 3 1 2 = Some (Inr (None, page16_b))"
    by (simp add: page16_defs eval_defs)
  from allocate_failure_frame[OF h] h show ?thesis by (simp add: page16_defs)
qed

end
